theory Spec2Isabelle
  imports Main
begin

section \<open>Classes and the attribute schema (BaseClasses.py, EntryBase)\<close>

text \<open>
  A class of the record hierarchy is given by its name, the tuple its body assigns to
  \<open>attributes\<close> (\<open>None\<close> when the body does not assign one) and its base class.
  The hierarchies of the repository use single inheritance, so the method resolution
  order of a class is the class followed by the order of its base, ending in Python's
  \<open>object\<close>. Attribute values are kept abstract (the type variable \<open>'v\<close>); Python's
  \<open>==\<close> on them is HOL equality.
\<close>

datatype pyclass = Object | Class string "string list option" pyclass

text \<open>\<open>class EntryBase: attributes = ()\<close>, and the three record types of MainClasses.py.\<close>

definition EntryBase :: pyclass where
  "EntryBase = Class ''EntryBase'' (Some []) Object"

definition PhoneEntry :: pyclass where
  "PhoneEntry = Class ''PhoneEntry'' (Some [''name'', ''phone'']) EntryBase"

definition PhoneEntryExt :: pyclass where
  "PhoneEntryExt = Class ''PhoneEntryExt'' (Some [''email'']) PhoneEntry"

definition PhoneEntryExt2 :: pyclass where
  "PhoneEntryExt2 = Class ''PhoneEntryExt2'' (Some [''age'']) PhoneEntryExt"

text \<open>\<open>inspect.getmro(cls)\<close>: the class itself first, \<open>object\<close> last.\<close>

fun getmro :: "pyclass \<Rightarrow> pyclass list" where
  "getmro Object = [Object]"
| "getmro (Class n a b) = Class n a b # getmro b"

text \<open>
  \<open>base.attributes\<close> read on a class: Python looks the name up along the class's own
  resolution order, so a class that assigns no tuple answers with the tuple of its
  nearest ancestor that does. \<open>object\<close> has no such attribute.
\<close>

fun class_attributes :: "pyclass \<Rightarrow> string list option" where
  "class_attributes Object = None"
| "class_attributes (Class n a b) =
     (case a of Some xs \<Rightarrow> Some xs | None \<Rightarrow> class_attributes b)"

definition hasattr_attributes :: "pyclass \<Rightarrow> bool" where
  "hasattr_attributes base = (class_attributes base \<noteq> None)"

text \<open>\<open>_get_parent_hierarchy_with_attributes\<close>: the filtered order, reversed.\<close>

definition get_parent_hierarchy_with_attributes :: "pyclass \<Rightarrow> pyclass list" where
  "get_parent_hierarchy_with_attributes cls =
     rev (filter hasattr_attributes (getmro cls))"

text \<open>\<open>_get_all_attributes\<close>: \<open>sum((base.attributes for base in base_classes), start=())\<close>.\<close>

definition get_all_attributes :: "pyclass \<Rightarrow> string list" where
  "get_all_attributes cls =
     concat (map (\<lambda>base. case class_attributes base of Some xs \<Rightarrow> xs | None \<Rightarrow> [])
                 (get_parent_hierarchy_with_attributes cls))"

text \<open>
  What the docstring of \<open>EntryBase\<close> describes: every class lists only the attributes
  it adds, and the schema is these lists from the most general class down. A class that
  assigns no tuple adds nothing.
\<close>

fun declared_schema :: "pyclass \<Rightarrow> string list" where
  "declared_schema Object = []"
| "declared_schema (Class n a b) =
     declared_schema b @ (case a of Some xs \<Rightarrow> xs | None \<Rightarrow> [])"

fun every_class_declares :: "pyclass \<Rightarrow> bool" where
  "every_class_declares Object = True"
| "every_class_declares (Class n a b) = (a \<noteq> None \<and> every_class_declares b)"

section \<open>Python values\<close>

text \<open>
  The values a record can hold: \<open>None\<close>, booleans, integers, strings, tuples of
  strings, and any other objects, which behave as Python objects do by default (true,
  without length, not iterable, equal only to themselves). The schema \<open>__new__\<close>
  stores on an instance is a tuple of strings and the lock is a boolean, so the
  bookkeeping of an instance is made of the same values as its attributes.
\<close>

datatype 'a pyvalue = NoneV | Bool bool | Num int | Str string | Tuple "string list" | Obj 'a

text \<open>
  The errors of the program. Python raises \<open>TypeError\<close> at four places of
  \<open>__init__\<close> and \<open>AttributeError\<close> in \<open>__setattr__\<close> and \<open>__getitem__\<close>; each
  raise is a constructor of its own, with the set the message prints.
  \<open>UnexpectedError\<close> is the last raise of \<open>__init__\<close>, \<open>AttributeNotFound\<close> is
  \<open>__getattribute__\<close> not finding the name, \<open>IndexOutOfRange\<close> is the
  \<open>IndexError\<close> of list indexing. The last three are raised by Python itself:
  \<open>BindingError\<close> when a keyword argument names a parameter that is already bound
  (\<open>self\<close>, \<open>cls\<close>), \<open>NoLength\<close> by \<open>len\<close> of a value without length,
  \<open>NotIterable\<close> by \<open>in\<close> on a value that is no container.
\<close>

datatype error =
    TooManyArguments
  | DuplicateArgument "string set"
  | MissingAttributes "string set"
  | UnexpectedAttributes "string set"
  | UnexpectedError
  | ForbiddenAttributeSet string
  | UnknownAttribute string
  | AttributeNotFound string
  | IndexOutOfRange
  | BindingError
  | NoLength
  | NotIterable

text \<open>Truth of a value in a condition.\<close>

fun truthy :: "'a pyvalue \<Rightarrow> bool" where
  "truthy NoneV = False"
| "truthy (Bool b) = b"
| "truthy (Num n) = (n \<noteq> 0)"
| "truthy (Str s) = (s \<noteq> [])"
| "truthy (Tuple xs) = (xs \<noteq> [])"
| "truthy (Obj a) = True"

text \<open>\<open>x == y\<close>: a boolean equals the integer 0 or 1 it stands for.\<close>

fun py_eq :: "'a pyvalue \<Rightarrow> 'a pyvalue \<Rightarrow> bool" where
  "py_eq (Bool b) (Num n) = (n = (if b then 1 else 0))"
| "py_eq (Num n) (Bool b) = (n = (if b then 1 else 0))"
| "py_eq x y = (x = y)"

text \<open>
  The elements of a value that has a length and can be iterated: the strings of a
  tuple, the characters of a string.
\<close>

fun py_elements :: "'a pyvalue \<Rightarrow> string list option" where
  "py_elements (Tuple xs) = Some xs"
| "py_elements (Str s) = Some (map (\<lambda>c. [c]) s)"
| "py_elements v = None"

text \<open>\<open>name in v\<close> for a string \<open>name\<close>: membership in a tuple, substring of a string.\<close>

fun starts_with :: "string \<Rightarrow> string \<Rightarrow> bool" where
  "starts_with s [] = True"
| "starts_with [] (c # p) = False"
| "starts_with (x # s) (c # p) = (x = c \<and> starts_with s p)"

fun substring :: "string \<Rightarrow> string \<Rightarrow> bool" where
  "substring p [] = (p = [])"
| "substring p (x # s) = (starts_with (x # s) p \<or> substring p s)"

fun py_contains :: "string \<Rightarrow> 'a pyvalue \<Rightarrow> error + bool" where
  "py_contains name (Tuple xs) = Inr (name \<in> set xs)"
| "py_contains name (Str s) = Inr (substring name s)"
| "py_contains name v = Inl NotIterable"

section \<open>Records (EntryBase instances)\<close>

text \<open>
  An instance is its class and its \<open>__dict__\<close>. The dictionary holds the two
  bookkeeping attributes \<open>__new__\<close> sets (\<open>attributes\<close> and \<open>_can_set_any_attr\<close>)
  next to the attributes of the schema, in one namespace: a schema that uses one of
  these two names overwrites the bookkeeping.
\<close>

record 'a entry =
  cls :: pyclass
  dict :: "string \<rightharpoonup> 'a pyvalue"

text \<open>
  A Python dictionary built from pairs, later pairs overwriting earlier ones, and its
  key set. Keyword arguments are the pairs in the order of the call.
\<close>

definition dict_of :: "(string \<times> 'v) list \<Rightarrow> (string \<rightharpoonup> 'v)" where
  "dict_of ps = map_of (rev ps)"

definition keys :: "(string \<times> 'v) list \<Rightarrow> string set" where
  "keys ps = set (map fst ps)"

text \<open>
  Reading an attribute of an instance, \<open>self.name\<close> or \<open>self.__getattribute__(name)\<close>:
  the instance dictionary first, then the class, where \<open>EntryBase\<close> defines
  \<open>_can_set_any_attr = True\<close> and every class has its \<open>attributes\<close>. The methods of
  the class and the attributes Python itself keeps on an object (\<open>__class__\<close>,
  \<open>__dict__\<close>, \<open>__weakref__\<close>) are not values of this model; the theorems exclude
  schemas that use such names.
\<close>

definition getattr :: "'a entry \<Rightarrow> string \<Rightarrow> error + 'a pyvalue" where
  "getattr self name =
     (case dict self name of
        Some v \<Rightarrow> Inr v
      | None \<Rightarrow>
          if name = ''_can_set_any_attr'' then Inr (Bool True)
          else if name = ''attributes'' then
            (case class_attributes (cls self) of
               Some xs \<Rightarrow> Inr (Tuple xs)
             | None \<Rightarrow> Inl (AttributeNotFound name))
          else Inl (AttributeNotFound name))"

text \<open>
  \<open>__setattr__\<close>: \<open>self._can_set_any_attr or name in self.attributes\<close>, both read
  from the instance as it is now; \<open>super().__setattr__\<close> stores the value in the
  instance dictionary. The result is the error raised, if any, and the instance
  afterwards: a raise leaves the instance as it was.
\<close>

definition EntryBase_setattr ::
  "'a entry \<Rightarrow> string \<Rightarrow> 'a pyvalue \<Rightarrow> error option \<times> 'a entry" where
  "EntryBase_setattr self name v =
     (case getattr self ''_can_set_any_attr'' of
        Inl err \<Rightarrow> (Some err, self)
      | Inr flag \<Rightarrow>
          if truthy flag then (None, self\<lparr>dict := (dict self)(name \<mapsto> v)\<rparr>)
          else
            (case getattr self ''attributes'' of
               Inl err \<Rightarrow> (Some err, self)
             | Inr attrs \<Rightarrow>
                 (case py_contains name attrs of
                    Inl err \<Rightarrow> (Some err, self)
                  | Inr True \<Rightarrow> (None, self\<lparr>dict := (dict self)(name \<mapsto> v)\<rparr>)
                  | Inr False \<Rightarrow> (Some (ForbiddenAttributeSet name), self))))"

text \<open>
  \<open>__new__\<close>: the fresh object has an empty dictionary and sees the class attribute
  \<open>_can_set_any_attr = True\<close>, so both assignments pass \<open>__setattr__\<close>; they store
  the computed schema and lock the instance.
\<close>

definition EntryBase_new :: "pyclass \<Rightarrow> 'a entry" where
  "EntryBase_new c =
     (let instance = \<lparr>cls = c, dict = Map.empty\<rparr>;
          instance = snd (EntryBase_setattr instance ''attributes'' (Tuple (get_all_attributes c)));
          instance = snd (EntryBase_setattr instance ''_can_set_any_attr'' (Bool False))
      in instance)"

text \<open>
  \<open>__init__\<close>, check by check, reading \<open>self.attributes\<close> from the instance;
  \<open>kwargs.update(dict_args)\<close> appends the pairs, and \<open>self.__dict__.update(kwargs)\<close>
  writes every binding into the instance dictionary.
\<close>

definition EntryBase_init ::
  "'a entry \<Rightarrow> 'a pyvalue list \<Rightarrow> (string \<times> 'a pyvalue) list \<Rightarrow> error + 'a entry" where
  "EntryBase_init self args kwargs =
     (case getattr self ''attributes'' of
        Inl err \<Rightarrow> Inl err
      | Inr attrs \<Rightarrow>
          (case py_elements attrs of
             None \<Rightarrow> Inl NoLength
           | Some attributes \<Rightarrow>
               if length args > length attributes then Inl TooManyArguments
               else
                 let dict_args = zip attributes args;
                     common_args = keys dict_args \<inter> keys kwargs
                 in if common_args \<noteq> {} then Inl (DuplicateArgument common_args)
                    else
                      let kwargs = kwargs @ dict_args in
                      if set attributes \<noteq> keys kwargs then
                        (let missing_args = set attributes - keys kwargs in
                         if missing_args \<noteq> {} then Inl (MissingAttributes missing_args)
                         else
                           let unexpected_args = keys kwargs - set attributes in
                           if unexpected_args \<noteq> {}
                           then Inl (UnexpectedAttributes unexpected_args)
                           else Inl UnexpectedError)
                      else Inr (self\<lparr>dict := dict self ++ dict_of kwargs\<rparr>)))"

text \<open>
  Calling the class: \<open>__new__(cls, *args, **kwargs)\<close>, then
  \<open>__init__(self, *args, **kwargs)\<close> on the new instance. A keyword named \<open>cls\<close>
  cannot be bound by \<open>__new__\<close>, nor one named \<open>self\<close> by \<open>__init__\<close>: Python raises
  before the body runs.
\<close>

definition EntryBase_call ::
  "pyclass \<Rightarrow> 'a pyvalue list \<Rightarrow> (string \<times> 'a pyvalue) list \<Rightarrow> error + 'a entry" where
  "EntryBase_call c args kwargs =
     (if ''cls'' \<in> keys kwargs then Inl BindingError
      else
        let instance = EntryBase_new c in
        if ''self'' \<in> keys kwargs then Inl BindingError
        else EntryBase_init instance args kwargs)"

text \<open>\<open>__getitem__\<close>: \<open>key in self.attributes\<close>, then \<open>self.__getattribute__(key)\<close>.\<close>

definition EntryBase_getitem :: "'a entry \<Rightarrow> string \<Rightarrow> error + 'a pyvalue" where
  "EntryBase_getitem self key =
     (case getattr self ''attributes'' of
        Inl err \<Rightarrow> Inl err
      | Inr attrs \<Rightarrow>
          (case py_contains key attrs of
             Inl err \<Rightarrow> Inl err
           | Inr True \<Rightarrow> getattr self key
           | Inr False \<Rightarrow> Inl (UnknownAttribute key)))"

text \<open>
  The life of an instance after construction: a sequence of attempted assignments,
  each leaving the instance as \<open>__setattr__\<close> leaves it.
\<close>

fun assignments :: "'a entry \<Rightarrow> (string \<times> 'a pyvalue) list \<Rightarrow> 'a entry" where
  "assignments self [] = self"
| "assignments self ((name, v) # rest) =
     assignments (snd (EntryBase_setattr self name v)) rest"

section \<open>Collections (BookBase)\<close>

record 'a book =
  ENTRY_TYPE :: pyclass
  book_attributes :: "string list"
  entries :: "'a entry list"

text \<open>Creating a book bound to a record type: \<open>__new__\<close> and \<open>__init__\<close>.\<close>

definition BookBase_call :: "pyclass \<Rightarrow> 'a book" where
  "BookBase_call entry_type =
     \<lparr>ENTRY_TYPE = entry_type, book_attributes = get_all_attributes entry_type,
      entries = []\<rparr>"

text \<open>
  \<open>add_contact(self, *args, **kwargs)\<close>: a keyword named \<open>self\<close> cannot be bound;
  otherwise the record is constructed first, and only when that returns is it appended.
  The result is the error raised, if any, and the book afterwards.
\<close>

definition BookBase_add_contact ::
  "'a book \<Rightarrow> 'a pyvalue list \<Rightarrow> (string \<times> 'a pyvalue) list \<Rightarrow> error option \<times> 'a book" where
  "BookBase_add_contact self args kwargs =
     (if ''self'' \<in> keys kwargs then (Some BindingError, self)
      else
        (case EntryBase_call (ENTRY_TYPE self) args kwargs of
           Inl err \<Rightarrow> (Some err, self)
         | Inr entry \<Rightarrow> (None, self\<lparr>entries := entries self @ [entry]\<rparr>)))"

text \<open>
  \<open>find(self, **kwargs)\<close>: a keyword named \<open>self\<close> cannot be bound. The inner loop
  over the criteria stops at the first criterion that differs (\<open>break\<close>) or whose
  lookup raises; the outer loop collects the matches in order.
\<close>

fun entry_matches :: "'a entry \<Rightarrow> (string \<times> 'a pyvalue) list \<Rightarrow> error + bool" where
  "entry_matches entry [] = Inr True"
| "entry_matches entry ((kw, v) # rest) =
     (case EntryBase_getitem entry kw of
        Inl err \<Rightarrow> Inl err
      | Inr x \<Rightarrow> if \<not> py_eq x v then Inr False else entry_matches entry rest)"

fun find_loop ::
  "'a entry list \<Rightarrow> (string \<times> 'a pyvalue) list \<Rightarrow> 'a entry list \<Rightarrow> error + 'a entry list" where
  "find_loop [] kwargs matches = Inr matches"
| "find_loop (entry # rest) kwargs matches =
     (case entry_matches entry kwargs of
        Inl err \<Rightarrow> Inl err
      | Inr found \<Rightarrow> find_loop rest kwargs (if found then matches @ [entry] else matches))"

definition BookBase_find ::
  "'a book \<Rightarrow> (string \<times> 'a pyvalue) list \<Rightarrow> error + 'a entry list" where
  "BookBase_find self kwargs =
     (if ''self'' \<in> keys kwargs then Inl BindingError
      else find_loop (entries self) kwargs [])"

text \<open>
  Python's list indexing by an integer: a negative index counts from the end, and an
  index outside \<open>-n .. n-1\<close> raises \<open>IndexError\<close>.
\<close>

definition list_index :: "nat \<Rightarrow> int \<Rightarrow> nat option" where
  "list_index n key =
     (if 0 \<le> key \<and> key < int n then Some (nat key)
      else if key < 0 \<and> - int n \<le> key then Some (nat (int n + key))
      else None)"

definition BookBase_getitem :: "'a book \<Rightarrow> int \<Rightarrow> error + 'a entry" where
  "BookBase_getitem self key =
     (case list_index (length (entries self)) key of
        None \<Rightarrow> Inl IndexOutOfRange
      | Some i \<Rightarrow> Inr (entries self ! i))"

text \<open>
  The states of a collection: what a caller can do to a book is add a contact, and
  assign to an attribute of a stored record reached by position (\<open>book[key].name = v\<close>).
  A call that raises leaves the book as it was.
\<close>

datatype 'a action =
    AddContact "'a pyvalue list" "(string \<times> 'a pyvalue) list"
  | SetAttr int string "'a pyvalue"

fun step :: "'a book \<Rightarrow> 'a action \<Rightarrow> 'a book" where
  "step b (AddContact args kwargs) = snd (BookBase_add_contact b args kwargs)"
| "step b (SetAttr key name v) =
     (case list_index (length (entries b)) key of
        None \<Rightarrow> b
      | Some i \<Rightarrow> b\<lparr>entries := (entries b)[i := snd (EntryBase_setattr (entries b ! i) name v)]\<rparr>)"

definition run :: "pyclass \<Rightarrow> 'a action list \<Rightarrow> 'a book" where
  "run entry_type acts = foldl step (BookBase_call entry_type) acts"

text \<open>
  The records a sequence of calls has added, as constructed, in the order of the calls:
  the insertion order of the book.
\<close>

fun added :: "pyclass \<Rightarrow> 'a action list \<Rightarrow> 'a entry list" where
  "added entry_type [] = []"
| "added entry_type (AddContact args kwargs # acts) =
     (case EntryBase_call entry_type args kwargs of
        Inl err \<Rightarrow> added entry_type acts
      | Inr entry \<Rightarrow> entry # added entry_type acts)"
| "added entry_type (SetAttr key name v # acts) = added entry_type acts"

section \<open>Counting the computations of the schema\<close>

text \<open>
  To see how often the schema is computed, the calls of \<open>_get_all_attributes\<close> are
  logged: the log is the list of the classes it was called on, in order. \<open>__new__\<close>
  makes the call, so constructing a record extends the log, unless the call of the class
  fails before \<open>__new__\<close> runs.
\<close>

definition get_all_attributes_logged ::
  "pyclass \<Rightarrow> pyclass list \<Rightarrow> string list \<times> pyclass list" where
  "get_all_attributes_logged c log = (get_all_attributes c, log @ [c])"

definition EntryBase_new_logged :: "pyclass \<Rightarrow> pyclass list \<Rightarrow> 'a entry \<times> pyclass list" where
  "EntryBase_new_logged c log =
     (let instance = \<lparr>cls = c, dict = Map.empty\<rparr>;
          (schema, log) = get_all_attributes_logged c log;
          instance = snd (EntryBase_setattr instance ''attributes'' (Tuple schema));
          instance = snd (EntryBase_setattr instance ''_can_set_any_attr'' (Bool False))
      in (instance, log))"

definition EntryBase_call_logged ::
  "pyclass \<Rightarrow> 'a pyvalue list \<Rightarrow> (string \<times> 'a pyvalue) list \<Rightarrow> pyclass list
     \<Rightarrow> (error + 'a entry) \<times> pyclass list" where
  "EntryBase_call_logged c args kwargs log =
     (if ''cls'' \<in> keys kwargs then (Inl BindingError, log)
      else
        let (instance, log) = EntryBase_new_logged c log in
        if ''self'' \<in> keys kwargs then (Inl BindingError, log)
        else (EntryBase_init instance args kwargs, log))"

text \<open>A sequence of constructor calls, each given by the class and its arguments.\<close>

fun construct_all ::
  "(pyclass \<times> 'a pyvalue list \<times> (string \<times> 'a pyvalue) list) list \<Rightarrow> pyclass list
     \<Rightarrow> (error + 'a entry) list \<times> pyclass list" where
  "construct_all [] log = ([], log)"
| "construct_all ((c, args, kwargs) # calls) log =
     (let (r, log) = EntryBase_call_logged c args kwargs log;
          (rs, log) = construct_all calls log
      in (r # rs, log))"

section \<open>The object store and copying (BookBase.create_copy)\<close>

text \<open>
  Whether a copy shares state with its original depends on which objects are the
  same object, so here the objects live in a store: a heap is a list of objects and an
  address is a position in it. A value is an immutable atom (a number, a string) or
  the reference to an object. The objects are lists, record instances (the class, the
  two bookkeeping attributes and the remaining attributes with their values, in the
  order of the instance dictionary) and book instances (the record type, the reported
  schema and the \<open>entries\<close> attribute, \<open>None\<close> as long as it is not set). A book's
  \<open>entries\<close> refers to a list object whose elements refer to record instances.
\<close>

datatype 'a pval = Atom 'a | Ref nat

datatype 'v obj =
    PyList "'v list"
  | Instance pyclass "string list" bool "(string \<times> 'v) list"
  | BookInstance pyclass "string list" "'v option"

type_synonym 'a heap = "'a pval obj list"

text \<open>
  The components of an object in their order, the object with its components replaced,
  and the object a copy starts from: \<open>[]\<close> for a list, what \<open>__new__\<close> returns for
  an instance.
\<close>

fun children :: "'v obj \<Rightarrow> 'v list" where
  "children (PyList vs) = vs"
| "children (Instance c a f d) = map snd d"
| "children (BookInstance t a e) = (case e of None \<Rightarrow> [] | Some v \<Rightarrow> [v])"

fun rebuild :: "'v obj \<Rightarrow> 'w list \<Rightarrow> 'w obj" where
  "rebuild (PyList vs) cs = PyList cs"
| "rebuild (Instance c a f d) cs = Instance c a f (zip (map fst d) cs)"
| "rebuild (BookInstance t a e) cs = BookInstance t a (case cs of [] \<Rightarrow> None | v # _ \<Rightarrow> Some v)"

fun shell :: "'v obj \<Rightarrow> 'v obj" where
  "shell (PyList vs) = PyList []"
| "shell (Instance c a f d) = Instance c (get_all_attributes c) False []"
| "shell (BookInstance t a e) = BookInstance t (get_all_attributes t) None"

text \<open>
  Modelled from the spec: \<open>copy.deepcopy\<close> of the Python standard library, which
  \<open>create_copy\<close> calls and which is not among the sources. The spec asks for a full
  deep duplication of the entry list and of every record object's attribute values,
  nested mutable structures included. The definition follows the library's algorithm:
  an atom is returned as it is; an object found in the memo is answered from the memo;
  otherwise a new object is created and entered into the memo, the components of the
  original are copied in order, and the new object is filled with the copies. The fuel
  bounds the depth of the recursion: Python has none, and the number of objects in the
  heap is shown below to be always enough.
\<close>

fun deepcopy ::
  "nat \<Rightarrow> 'a pval \<Rightarrow> 'a heap \<times> (nat \<rightharpoonup> nat) \<Rightarrow> ('a pval \<times> 'a heap \<times> (nat \<rightharpoonup> nat)) option"
and deepcopy_all ::
  "nat \<Rightarrow> 'a pval list \<Rightarrow> 'a heap \<times> (nat \<rightharpoonup> nat)
     \<Rightarrow> ('a pval list \<times> 'a heap \<times> (nat \<rightharpoonup> nat)) option" where
  "deepcopy fuel (Atom a) (h, memo) = Some (Atom a, h, memo)"
| "deepcopy 0 (Ref p) (h, memo) =
     (case memo p of Some q \<Rightarrow> Some (Ref q, h, memo) | None \<Rightarrow> None)"
| "deepcopy (Suc fuel) (Ref p) (h, memo) =
     (case memo p of
        Some q \<Rightarrow> Some (Ref q, h, memo)
      | None \<Rightarrow>
          if length h \<le> p then None
          else
            let x = h ! p; q = length h in
            (case deepcopy_all fuel (children x) (h @ [shell x], memo(p \<mapsto> q)) of
               None \<Rightarrow> None
             | Some (cs, h', memo') \<Rightarrow> Some (Ref q, h'[q := rebuild x cs], memo')))"
| "deepcopy_all fuel [] s = Some ([], s)"
| "deepcopy_all fuel (v # vs) s =
     (case deepcopy fuel v s of
        None \<Rightarrow> None
      | Some (v', s') \<Rightarrow>
          (case deepcopy_all fuel vs s' of
             None \<Rightarrow> None
           | Some (vs', s'') \<Rightarrow> Some (v' # vs', s'')))"

text \<open>
  \<open>create_copy\<close>: \<open>return copy.deepcopy(self)\<close>, starting from an empty memo. The
  result is the address of the copy and the heap afterwards.
\<close>

definition BookBase_create_copy :: "'a heap \<Rightarrow> nat \<Rightarrow> (nat \<times> 'a heap) option" where
  "BookBase_create_copy h self =
     (case deepcopy (length h) (Ref self) (h, Map.empty) of
        Some (Ref c, h', memo) \<Rightarrow> Some (c, h')
      | _ \<Rightarrow> None)"

text \<open>
  What can be observed of a value in a heap down to a given depth: the atom, or the
  object with its components observed one level less deep. Two values are equal by
  value when their observations agree at every depth.
\<close>

datatype 'a tree = TAtom 'a | TCut | TObj "'a tree obj"

fun view :: "nat \<Rightarrow> 'a heap \<Rightarrow> 'a pval \<Rightarrow> 'a tree" where
  "view n h (Atom a) = TAtom a"
| "view 0 h (Ref p) = TCut"
| "view (Suc n) h (Ref p) = (if p < length h then TObj (map_obj (view n h) (h ! p)) else TCut)"

text \<open>
  The addresses reachable from a value, the references that point into the heap, and
  the heaps without dangling references.
\<close>

inductive_set reach :: "'a heap \<Rightarrow> 'a pval \<Rightarrow> nat set" for h :: "'a heap" and v :: "'a pval" where
  start: "v = Ref p \<Longrightarrow> p < length h \<Longrightarrow> p \<in> reach h v"
| step: "p \<in> reach h v \<Longrightarrow> Ref r \<in> set_obj (h ! p) \<Longrightarrow> r < length h \<Longrightarrow> r \<in> reach h v"

definition valid :: "'a heap \<Rightarrow> 'a pval \<Rightarrow> bool" where
  "valid h v = (case v of Atom a \<Rightarrow> True | Ref p \<Rightarrow> p < length h)"

definition heap_ok :: "'a heap \<Rightarrow> bool" where
  "heap_ok h \<longleftrightarrow> (\<forall>x\<in>set h. \<forall>v\<in>set_obj x. valid h v)"

text \<open>
  The state of a copy in progress, for the proofs: \<open>remap\<close> translates a value of the
  original through the memo; \<open>copying h0 G h m\<close> says that \<open>h\<close> extends the original
  heap \<open>h0\<close> by the copies the memo \<open>m\<close> lists, each copy outside the unfinished ones
  \<open>G\<close> being its original with the components translated.
\<close>

definition remap :: "(nat \<rightharpoonup> nat) \<Rightarrow> 'a pval \<Rightarrow> 'a pval" where
  "remap m v = (case v of Atom a \<Rightarrow> Atom a | Ref p \<Rightarrow> (case m p of Some q \<Rightarrow> Ref q | None \<Rightarrow> Ref p))"

definition copying :: "'a heap \<Rightarrow> nat set \<Rightarrow> 'a heap \<Rightarrow> (nat \<rightharpoonup> nat) \<Rightarrow> bool" where
  "copying h0 G h m \<longleftrightarrow>
     length h0 \<le> length h \<and> (\<forall>p<length h0. h ! p = h0 ! p) \<and>
     (\<forall>p q. m p = Some q \<longrightarrow> p < length h0 \<and> length h0 \<le> q \<and> q < length h) \<and>
     (\<forall>p p' q. m p = Some q \<and> m p' = Some q \<longrightarrow> p = p') \<and>
     (\<forall>q r. length h0 \<le> q \<and> q < length h \<and> Ref r \<in> set_obj (h ! q)
        \<longrightarrow> length h0 \<le> r \<and> r < length h) \<and>
     (\<forall>p q. m p = Some q \<and> p \<notin> G \<longrightarrow>
        h ! q = map_obj (remap m) (h0 ! p) \<and> (\<forall>r. Ref r \<in> set_obj (h0 ! p) \<longrightarrow> r \<in> dom m))"

text \<open>
  An example: a book with one record whose \<open>phone\<close> attribute is the list
  \<open>[1234]\<close>, and the heap after copying the book.
\<close>

definition example_heap :: "unit pyvalue heap" where
  "example_heap =
     [BookInstance PhoneEntry [''name'', ''phone''] (Some (Ref 1)),
      PyList [Ref 2],
      Instance PhoneEntry [''name'', ''phone''] False
        [(''name'', Atom (Str ''ana'')), (''phone'', Ref 3)],
      PyList [Atom (Num 1234)]]"

definition copied_heap :: "unit pyvalue heap" where
  "copied_heap =
     example_heap @
     [BookInstance PhoneEntry [''name'', ''phone''] (Some (Ref 5)),
      PyList [Ref 6],
      Instance PhoneEntry [''name'', ''phone''] False
        [(''name'', Atom (Str ''ana'')), (''phone'', Ref 7)],
      PyList [Atom (Num 1234)]]"

section \<open>Invariants and examples\<close>

text \<open>
  The names an instance uses for itself: the two bookkeeping attributes, the method the
  code looks up on the instance in \<open>__getitem__\<close>, and the attributes Python keeps on
  every object. A schema is plain when it uses none of them.
\<close>

definition special_names :: "string set" where
  "special_names =
     {''attributes'', ''_can_set_any_attr'', ''__getattribute__'', ''__class__'', ''__dict__'',
      ''__weakref__''}"

definition plain_schema :: "pyclass \<Rightarrow> bool" where
  "plain_schema c \<longleftrightarrow> set (get_all_attributes c) \<inter> special_names = {}"

text \<open>The instance dictionary as \<open>__new__\<close> leaves it.\<close>

definition bookkeeping :: "pyclass \<Rightarrow> (string \<rightharpoonup> 'a pyvalue)" where
  "bookkeeping c =
     [''attributes'' \<mapsto> Tuple (get_all_attributes c), ''_can_set_any_attr'' \<mapsto> Bool False]"

text \<open>
  What holds of every record a constructor call returns for a plain schema, and of
  every book a sequence of calls produces (see \<open>run_ok\<close> below).
\<close>

definition entry_ok :: "pyclass \<Rightarrow> 'a entry \<Rightarrow> bool" where
  "entry_ok T e \<longleftrightarrow>
     cls e = T \<and> dict e ''attributes'' = Some (Tuple (get_all_attributes T)) \<and>
     dict e ''_can_set_any_attr'' = Some (Bool False) \<and>
     dom (dict e) = set (get_all_attributes T) \<union> {''attributes'', ''_can_set_any_attr''}"

definition book_ok :: "'a book \<Rightarrow> bool" where
  "book_ok b \<longleftrightarrow>
     book_attributes b = get_all_attributes (ENTRY_TYPE b) \<and>
     (\<forall>e\<in>set (entries b). entry_ok (ENTRY_TYPE b) e)"

text \<open>
  A record satisfies the criteria: at every criterion name it has a value, and the
  value equals the criterion value.
\<close>

definition satisfies :: "'a entry \<Rightarrow> (string \<times> 'a pyvalue) list \<Rightarrow> bool" where
  "satisfies e kwargs \<longleftrightarrow> (\<forall>(k, v)\<in>set kwargs. \<exists>x. dict e k = Some x \<and> py_eq x v)"

text \<open>
  The records \<open>PhoneEntry('ana', 1234)\<close> and \<open>PhoneEntry('bob', 5678)\<close>, and the two
  calls of the scenario.
\<close>

definition ana :: "unit entry" where
  "ana = \<lparr>cls = PhoneEntry,
          dict = dict_of [(''attributes'', Tuple [''name'', ''phone'']),
                          (''_can_set_any_attr'', Bool False),
                          (''name'', Str ''ana''), (''phone'', Num 1234)]\<rparr>"

definition bob :: "unit entry" where
  "bob = \<lparr>cls = PhoneEntry,
          dict = dict_of [(''attributes'', Tuple [''name'', ''phone'']),
                          (''_can_set_any_attr'', Bool False),
                          (''name'', Str ''bob''), (''phone'', Num 5678)]\<rparr>"

definition two_contacts :: "unit action list" where
  "two_contacts = [AddContact [Str ''ana'', Num 1234] [], AddContact [Str ''bob'', Num 5678] []]"

text \<open>
  A record type whose schema uses the name \<open>attributes\<close>, and the record
  \<open>Product('x', 'red')\<close>: construction overwrites the stored schema with \<open>'red'\<close>.
\<close>

definition Product :: pyclass where
  "Product = Class ''Product'' (Some [''name'', ''attributes'']) EntryBase"

definition red :: "unit entry" where
  "red = \<lparr>cls = Product,
          dict = dict_of [(''_can_set_any_attr'', Bool False),
                          (''name'', Str ''x''), (''attributes'', Str ''red'')]\<rparr>"

section \<open>The schema\<close>

lemma class_attributes_declares:
  "every_class_declares c \<Longrightarrow> c \<noteq> Object \<Longrightarrow> class_attributes c \<noteq> None"
  by (cases c) auto

lemma get_all_attributes_Class:
  "get_all_attributes (Class n a b) =
     get_all_attributes b @
       (case class_attributes (Class n a b) of Some xs \<Rightarrow> xs | None \<Rightarrow> [])"
  by (auto simp: get_all_attributes_def get_parent_hierarchy_with_attributes_def
      hasattr_attributes_def split: option.splits)

lemma get_all_attributes_Object: "get_all_attributes Object = []"
  by (simp add: get_all_attributes_def get_parent_hierarchy_with_attributes_def
      hasattr_attributes_def)

lemma get_all_attributes_declared:
  "every_class_declares c \<Longrightarrow> get_all_attributes c = declared_schema c"
  by (induction c) (auto simp: get_all_attributes_Class get_all_attributes_Object)

lemma schema_EntryBase: "get_all_attributes EntryBase = []"
  by (simp add: EntryBase_def get_all_attributes_Class get_all_attributes_Object)

lemma schema_PhoneEntry: "get_all_attributes PhoneEntry = [''name'', ''phone'']"
  by (simp add: PhoneEntry_def get_all_attributes_Class schema_EntryBase)

lemma schema_PhoneEntryExt: "get_all_attributes PhoneEntryExt = [''name'', ''phone'', ''email'']"
  by (simp add: PhoneEntryExt_def get_all_attributes_Class schema_PhoneEntry)

lemma schema_PhoneEntryExt2:
  "get_all_attributes PhoneEntryExt2 = [''name'', ''phone'', ''email'', ''age'']"
  by (simp add: PhoneEntryExt2_def get_all_attributes_Class schema_PhoneEntryExt)

lemma schema_three_levels:
  "get_all_attributes
     (Class n3 (Some [d]) (Class n2 (Some [c]) (Class n1 (Some [a, b]) EntryBase)))
   = [a, b, c, d]"
  by (simp add: get_all_attributes_Class schema_EntryBase)

text \<open>
  Claim C2. The schema of a class is the concatenation, most general ancestor first, of
  the tuples of exactly the ancestors that declare one; three levels declaring (a,b),
  (c) and (d) give (a,b,c,d). The three-level case holds (\<open>schema_three_levels\<close>),
  and so does the general statement when every class of the ancestry declares its
  tuple (\<open>get_all_attributes_declared\<close>). An ancestor that declares none is not left
  out, though: \<open>hasattr\<close> finds the tuple it inherits, which is then added a second
  time. Below, class B declares nothing between A with (a,b) and C with (c).
\<close>

theorem schema_with_undeclaring_ancestor:
  "get_all_attributes
     (Class ''C'' (Some [''c'']) (Class ''B'' None (Class ''A'' (Some [''a'', ''b'']) EntryBase)))
   = [''a'', ''b'', ''a'', ''b'', ''c''] \<and>
   declared_schema
     (Class ''C'' (Some [''c'']) (Class ''B'' None (Class ''A'' (Some [''a'', ''b'']) EntryBase)))
   = [''a'', ''b'', ''c'']"
  by (simp add: get_all_attributes_Class get_all_attributes_Object EntryBase_def)

section \<open>Construction\<close>

lemma EntryBase_new_result: "EntryBase_new c = \<lparr>cls = c, dict = bookkeeping c\<rparr>"
  by (simp add: EntryBase_new_def EntryBase_setattr_def getattr_def bookkeeping_def)

lemma getattr_new_attributes:
  "getattr \<lparr>cls = c, dict = bookkeeping c\<rparr> ''attributes'' = Inr (Tuple (get_all_attributes c))"
  by (simp add: getattr_def bookkeeping_def)

lemma keys_append: "keys (xs @ ys) = keys xs \<union> keys ys"
  by (auto simp: keys_def)

lemma keys_zip: "length args \<le> length S \<Longrightarrow> keys (zip S args) = set (take (length args) S)"
  by (simp add: keys_def map_fst_zip_take min_def)

lemma dom_dict_of: "dom (dict_of ps) = keys ps"
  by (simp add: dict_of_def keys_def dom_map_of_conv_image_fst)

lemma dict_of_append:
  "dict_of (xs @ ys) n = (case dict_of ys n of Some v \<Rightarrow> Some v | None \<Rightarrow> dict_of xs n)"
  by (simp add: dict_of_def map_add_def split: option.splits)

lemma dict_of_last:
  "i < length ps \<Longrightarrow> \<forall>j. i < j \<and> j < length ps \<longrightarrow> fst (ps ! j) \<noteq> fst (ps ! i) \<Longrightarrow>
   dict_of ps (fst (ps ! i)) = Some (snd (ps ! i))"
proof (induction ps rule: rev_induct)
  case Nil
  then show ?case by simp
next
  case (snoc p ps)
  show ?case
  proof (cases "i < length ps")
    case True
    from snoc.prems(2) True have ne: "fst p \<noteq> fst (ps ! i)"
      by (auto simp: nth_append dest!: spec[where x="length ps"])
    have "\<forall>j. i < j \<and> j < length ps \<longrightarrow> fst (ps ! j) \<noteq> fst (ps ! i)"
    proof (intro allI impI)
      fix j assume j: "i < j \<and> j < length ps"
      with snoc.prems(2) have "fst ((ps @ [p]) ! j) \<noteq> fst ((ps @ [p]) ! i)" by simp
      with j True show "fst (ps ! j) \<noteq> fst (ps ! i)" by (simp add: nth_append)
    qed
    with snoc.IH True have "dict_of ps (fst (ps ! i)) = Some (snd (ps ! i))" by simp
    with ne True show ?thesis by (cases p) (auto simp: dict_of_def nth_append)
  next
    case False
    with snoc.prems(1) have "i = length ps" by simp
    then show ?thesis by (cases p) (simp add: dict_of_def)
  qed
qed

lemma EntryBase_call_result:
  "''cls'' \<notin> keys kwargs \<Longrightarrow> ''self'' \<notin> keys kwargs \<Longrightarrow>
   EntryBase_call c args kwargs =
     (let S = get_all_attributes c; P = set (take (length args) S); K = keys kwargs in
      if length S < length args then Inl TooManyArguments
      else if P \<inter> K \<noteq> {} then Inl (DuplicateArgument (P \<inter> K))
      else if set S - (K \<union> P) \<noteq> {} then Inl (MissingAttributes (set S - (K \<union> P)))
      else if (K \<union> P) - set S \<noteq> {} then Inl (UnexpectedAttributes ((K \<union> P) - set S))
      else Inr \<lparr>cls = c, dict = bookkeeping c ++ dict_of (kwargs @ zip S args)\<rparr>)"
proof -
  assume k: "''cls'' \<notin> keys kwargs" "''self'' \<notin> keys kwargs"
  show ?thesis
  proof (cases "length (get_all_attributes c) < length args")
    case True
    then show ?thesis
      using k by (simp add: EntryBase_call_def EntryBase_init_def EntryBase_new_result
          getattr_new_attributes)
  next
    case False
    then have kz: "keys (zip (get_all_attributes c) args) = set (take (length args) (get_all_attributes c))"
      by (simp add: keys_zip)
    show ?thesis using False k
      by (auto simp: EntryBase_call_def EntryBase_init_def Let_def kz keys_append
          EntryBase_new_result getattr_new_attributes)
  qed
qed

lemma EntryBase_call_binding:
  "''cls'' \<in> keys kwargs \<or> ''self'' \<in> keys kwargs \<Longrightarrow>
   EntryBase_call c args kwargs = Inl BindingError"
  by (auto simp: EntryBase_call_def Let_def)

text \<open>
  Claim C1. Take a constructor call whose keyword names are not \<open>self\<close> or \<open>cls\<close>
  (these two collide with the first parameter of \<open>__init__\<close> and of \<open>__new__\<close>, and
  the call is rejected when the arguments are bound, before any check of \<open>__init__\<close>).
  Construction succeeds exactly when the positional values can be bound (there are no
  more of them than schema attributes), the names bound positionally together with the
  keyword names are the schema's names, and no name is bound both ways. On success the
  names of the instance dictionary are the schema's names and the two names written by
  \<open>__new__\<close>, and every schema attribute holds its bound value: the positional value
  of its position (the last one, should the schema name an attribute twice) or the
  keyword value; \<open>attributes\<close> and \<open>_can_set_any_attr\<close> hold the schema and the lock
  unless the schema itself has an attribute of that name. On failure the checks of
  \<open>__init__\<close> run in a fixed order, so the error is the first that applies among
  TooManyArguments, DuplicateArgument, MissingAttributes and UnexpectedAttributes; the
  final raise of \<open>__init__\<close> is never reached.
\<close>

theorem construction_law:
  "''self'' \<notin> keys kwargs \<Longrightarrow> ''cls'' \<notin> keys kwargs \<Longrightarrow>
   (let S = get_all_attributes c; P = set (take (length args) S); K = keys kwargs;
        r = EntryBase_call c args kwargs
    in ((\<exists>e. r = Inr e) \<longleftrightarrow> length args \<le> length S \<and> P \<union> K = set S \<and> P \<inter> K = {}) \<and>
       (\<forall>e. r = Inr e \<longrightarrow>
          cls e = c \<and> dom (dict e) = set S \<union> {''attributes'', ''_can_set_any_attr''} \<and>
          (\<forall>i<length args. (\<forall>j. i < j \<and> j < length args \<longrightarrow> S ! j \<noteq> S ! i)
             \<longrightarrow> dict e (S ! i) = Some (args ! i)) \<and>
          (\<forall>n\<in>K. dict e n = dict_of kwargs n) \<and>
          (''attributes'' \<notin> set S \<longrightarrow> dict e ''attributes'' = Some (Tuple S)) \<and>
          (''_can_set_any_attr'' \<notin> set S \<longrightarrow> dict e ''_can_set_any_attr'' = Some (Bool False))) \<and>
       (r = Inl TooManyArguments \<longleftrightarrow> length S < length args) \<and>
       (\<forall>X. r = Inl (DuplicateArgument X) \<longleftrightarrow>
          length args \<le> length S \<and> X = P \<inter> K \<and> X \<noteq> {}) \<and>
       (\<forall>X. r = Inl (MissingAttributes X) \<longleftrightarrow>
          length args \<le> length S \<and> P \<inter> K = {} \<and> X = set S - (P \<union> K) \<and> X \<noteq> {}) \<and>
       (\<forall>X. r = Inl (UnexpectedAttributes X) \<longleftrightarrow>
          length args \<le> length S \<and> P \<inter> K = {} \<and> set S \<subseteq> P \<union> K \<and>
          X = (P \<union> K) - set S \<and> X \<noteq> {}) \<and>
       (\<forall>err. r = Inl err \<longrightarrow>
          err = TooManyArguments \<or> (\<exists>X. err = DuplicateArgument X) \<or>
          (\<exists>X. err = MissingAttributes X) \<or> (\<exists>X. err = UnexpectedAttributes X)))"
proof -
  assume kw: "''self'' \<notin> keys kwargs" "''cls'' \<notin> keys kwargs"
  define S where "S = get_all_attributes c"
  define P where "P = set (take (length args) S)"
  define K where "K = keys kwargs"
  define r where "r = EntryBase_call c args kwargs"
  have r: "r = (if length S < length args then Inl TooManyArguments
      else if P \<inter> K \<noteq> {} then Inl (DuplicateArgument (P \<inter> K))
      else if set S - (K \<union> P) \<noteq> {} then Inl (MissingAttributes (set S - (K \<union> P)))
      else if (K \<union> P) - set S \<noteq> {} then Inl (UnexpectedAttributes ((K \<union> P) - set S))
      else Inr \<lparr>cls = c, dict = bookkeeping c ++ dict_of (kwargs @ zip S args)\<rparr>)"
    unfolding r_def S_def P_def K_def using kw by (simp add: EntryBase_call_result Let_def)
  have ok: "(\<exists>e. r = Inr e) \<longleftrightarrow> length args \<le> length S \<and> P \<union> K = set S \<and> P \<inter> K = {}"
    unfolding r by auto
  have val: "cls e = c \<and> dom (dict e) = set S \<union> {''attributes'', ''_can_set_any_attr''} \<and>
         (\<forall>i<length args. (\<forall>j. i < j \<and> j < length args \<longrightarrow> S ! j \<noteq> S ! i)
            \<longrightarrow> dict e (S ! i) = Some (args ! i)) \<and>
         (\<forall>n\<in>K. dict e n = dict_of kwargs n) \<and>
         (''attributes'' \<notin> set S \<longrightarrow> dict e ''attributes'' = Some (Tuple S)) \<and>
         (''_can_set_any_attr'' \<notin> set S \<longrightarrow> dict e ''_can_set_any_attr'' = Some (Bool False))"
    if e: "r = Inr e" for e
  proof -
    from e ok have len: "length args \<le> length S" and un: "P \<union> K = set S" and dis: "P \<inter> K = {}"
      by auto
    from e have e': "e = \<lparr>cls = c, dict = bookkeeping c ++ dict_of (kwargs @ zip S args)\<rparr>"
      unfolding r by (auto split: if_splits)
    have kz: "keys (zip S args) = P" using len by (simp add: keys_zip P_def)
    have all: "dom (dict_of (kwargs @ zip S args)) = set S"
      using un by (auto simp: dom_dict_of keys_append kz K_def)
    have d: "dom (dict e) = set S \<union> {''attributes'', ''_can_set_any_attr''}"
      using all by (auto simp: e' bookkeeping_def)
    have pos: "dict e (S ! i) = Some (args ! i)"
      if i: "i < length args" and last: "\<forall>j. i < j \<and> j < length args \<longrightarrow> S ! j \<noteq> S ! i" for i
    proof -
      have li: "i < length (zip S args)" using i len by simp
      have "dict_of (zip S args) (fst (zip S args ! i)) = Some (snd (zip S args ! i))"
        using li last len by (intro dict_of_last) auto
      then have "dict_of (zip S args) (S ! i) = Some (args ! i)" using i len by simp
      then show ?thesis by (simp add: e' dict_of_append map_add_def)
    qed
    have kw: "dict e n = dict_of kwargs n" if n: "n \<in> K" for n
    proof -
      from n dis have "n \<notin> keys (zip S args)" by (auto simp: kz)
      then have "dict_of (zip S args) n = None" by (simp add: dom_dict_of [symmetric] domIff)
      moreover from n obtain v where "dict_of kwargs n = Some v"
        by (auto simp: K_def dom_dict_of [symmetric])
      ultimately show ?thesis by (simp add: e' dict_of_append map_add_def)
    qed
    have bk: "dict e n = bookkeeping c n" if "n \<notin> set S" for n
    proof -
      from that all have "dict_of (kwargs @ zip S args) n = None" by (auto simp: domIff)
      then show ?thesis by (simp add: e' map_add_def)
    qed
    show ?thesis using d pos kw bk [of "''attributes''"] bk [of "''_can_set_any_attr''"]
      by (simp add: e' bookkeeping_def S_def)
  qed
  have too: "r = Inl TooManyArguments \<longleftrightarrow> length S < length args"
    unfolding r by auto
  have dup: "r = Inl (DuplicateArgument X) \<longleftrightarrow>
         length args \<le> length S \<and> X = P \<inter> K \<and> X \<noteq> {}" for X
    unfolding r by auto
  have mis: "r = Inl (MissingAttributes X) \<longleftrightarrow>
         length args \<le> length S \<and> P \<inter> K = {} \<and> X = set S - (P \<union> K) \<and> X \<noteq> {}" for X
    unfolding r by (auto simp: Un_commute)
  have unx: "r = Inl (UnexpectedAttributes X) \<longleftrightarrow>
         length args \<le> length S \<and> P \<inter> K = {} \<and> set S \<subseteq> P \<union> K \<and>
         X = (P \<union> K) - set S \<and> X \<noteq> {}" for X
    unfolding r by (auto simp: Un_commute)
  have kinds: "err = TooManyArguments \<or> (\<exists>X. err = DuplicateArgument X) \<or>
         (\<exists>X. err = MissingAttributes X) \<or> (\<exists>X. err = UnexpectedAttributes X)"
    if "r = Inl err" for err
    using that unfolding r by (auto split: if_splits)
  show ?thesis
    unfolding Let_def S_def [symmetric] P_def [symmetric] K_def [symmetric] r_def [symmetric]
    using ok val too dup mis unx kinds by blast
qed

theorem construction_law_witness:
  "''self'' \<notin> keys [(''phone'', Num 1234 :: unit pyvalue)] \<and>
   ''cls'' \<notin> keys [(''phone'', Num 1234 :: unit pyvalue)] \<and>
   (\<exists>e. EntryBase_call PhoneEntry [Str ''ana''] [(''phone'', Num 1234 :: unit pyvalue)] = Inr e \<and>
        dict e ''name'' = Some (Str ''ana'') \<and> dict e ''phone'' = Some (Num 1234) \<and>
        dict e ''attributes'' = Some (Tuple [''name'', ''phone'']) \<and>
        dom (dict e) = {''name'', ''phone'', ''attributes'', ''_can_set_any_attr''}) \<and>
   length [Str ''ana'' :: unit pyvalue] \<le> length (get_all_attributes PhoneEntry) \<and>
   set (take (length [Str ''ana'' :: unit pyvalue]) (get_all_attributes PhoneEntry))
       \<union> keys [(''phone'', Num 1234 :: unit pyvalue)]
     = set (get_all_attributes PhoneEntry) \<and>
   set (take (length [Str ''ana'' :: unit pyvalue]) (get_all_attributes PhoneEntry))
       \<inter> keys [(''phone'', Num 1234 :: unit pyvalue)] = {}"
proof -
  have k: "''self'' \<notin> keys [(''phone'', Num 1234 :: unit pyvalue)]"
    "''cls'' \<notin> keys [(''phone'', Num 1234 :: unit pyvalue)]"
    by (simp_all add: keys_def)
  show ?thesis
    using k construction_law [OF k, where c = PhoneEntry and args = "[Str ''ana'']"]
    by (simp add: schema_PhoneEntry keys_def dict_of_def Let_def EntryBase_call_result
        bookkeeping_def insert_commute)
qed

text \<open>
  As the claim words it, UnexpectedAttributes is raised when a supplied name is outside
  the schema. With a misspelt keyword the name \<open>phon\<close> is outside the schema, and the
  error is MissingAttributes, whose check comes first.
\<close>

theorem construction_law_counterexample:
  "''phon'' \<in> keys [(''phon'', Num 1234 :: unit pyvalue)] - set (get_all_attributes PhoneEntry) \<and>
   EntryBase_call PhoneEntry [Str ''ana''] [(''phon'', Num 1234 :: unit pyvalue)]
     = Inl (MissingAttributes {''phone''})"
  by (simp add: schema_PhoneEntry keys_def Let_def EntryBase_call_result)

section \<open>Locked records\<close>

lemma plain_schemaD:
  assumes "plain_schema c"
  shows "''attributes'' \<notin> set (get_all_attributes c)"
    and "''_can_set_any_attr'' \<notin> set (get_all_attributes c)"
  using assms by (auto simp: plain_schema_def special_names_def)

lemma setattr_ok_result:
  "entry_ok T e \<Longrightarrow>
   EntryBase_setattr e n v =
     (if n \<in> set (get_all_attributes T) then (None, e\<lparr>dict := (dict e)(n \<mapsto> v)\<rparr>)
      else (Some (ForbiddenAttributeSet n), e))"
  by (simp add: EntryBase_setattr_def getattr_def entry_ok_def)

lemma store_ok:
  assumes "plain_schema T" "entry_ok T e" "n \<in> set (get_all_attributes T)"
  shows "entry_ok T (e\<lparr>dict := (dict e)(n \<mapsto> v)\<rparr>)"
proof -
  from plain_schemaD [OF assms(1)] assms(3)
  have "n \<noteq> ''attributes''" "n \<noteq> ''_can_set_any_attr''" by auto
  with assms(2,3) show ?thesis by (auto simp: entry_ok_def)
qed

lemma setattr_ok:
  "plain_schema T \<Longrightarrow> entry_ok T e \<Longrightarrow> entry_ok T (snd (EntryBase_setattr e n v))"
  by (simp add: setattr_ok_result store_ok)




lemma call_result:
  assumes "EntryBase_call c args kwargs = Inr e"
  shows "e = \<lparr>cls = c, dict = bookkeeping c ++ dict_of (kwargs @ zip (get_all_attributes c) args)\<rparr>"
    and "keys (kwargs @ zip (get_all_attributes c) args) = set (get_all_attributes c)"
proof -
  from assms have k: "''cls'' \<notin> keys kwargs" "''self'' \<notin> keys kwargs"
    by (auto simp: EntryBase_call_def Let_def split: if_splits)
  from assms EntryBase_call_result [OF k, of c args]
  have e: "e = \<lparr>cls = c, dict = bookkeeping c ++ dict_of (kwargs @ zip (get_all_attributes c) args)\<rparr>"
    and len: "length args \<le> length (get_all_attributes c)"
    and eq: "set (get_all_attributes c) - (keys kwargs \<union> set (take (length args) (get_all_attributes c))) = {}"
      "(keys kwargs \<union> set (take (length args) (get_all_attributes c))) - set (get_all_attributes c) = {}"
    by (auto simp: Let_def split: if_splits)
  show "e = \<lparr>cls = c, dict = bookkeeping c ++ dict_of (kwargs @ zip (get_all_attributes c) args)\<rparr>"
    by (rule e)
  show "keys (kwargs @ zip (get_all_attributes c) args) = set (get_all_attributes c)"
    using eq len by (auto simp: keys_append keys_zip)
qed

lemma call_ok:
  assumes p: "plain_schema T" and c: "EntryBase_call T args kwargs = Inr e"
  shows "entry_ok T e"
proof -
  note r = call_result [OF c]
  have none: "dict_of (kwargs @ zip (get_all_attributes T) args) n = None"
    if "n \<notin> set (get_all_attributes T)" for n
    using that r(2) by (auto simp: dom_dict_of [symmetric] domIff)
  have "dom (dict e) = set (get_all_attributes T) \<union> {''attributes'', ''_can_set_any_attr''}"
    using r(2) by (auto simp: r(1) dom_dict_of bookkeeping_def)
  with none [OF plain_schemaD(1) [OF p]] none [OF plain_schemaD(2) [OF p]]
  show ?thesis by (simp add: entry_ok_def r(1) map_add_def bookkeeping_def)
qed



lemma assignments_entry_ok:
  "plain_schema T \<Longrightarrow> entry_ok T e \<Longrightarrow> entry_ok T (assignments e ops)"
  by (induction ops arbitrary: e) (auto simp: setattr_ok)

lemma plain_PhoneEntry: "plain_schema PhoneEntry"
  by (simp add: plain_schema_def special_names_def schema_PhoneEntry)

lemma schema_Product: "get_all_attributes Product = [''name'', ''attributes'']"
  by (simp add: Product_def get_all_attributes_Class schema_EntryBase)

lemma call_ana: "EntryBase_call PhoneEntry [Str ''ana'', Num 1234] [] = Inr ana"
proof -
  have "bookkeeping PhoneEntry ++ dict_of [(''name'', Str ''ana''), (''phone'', Num 1234)]
      = dict ana"
    by (rule ext) (simp add: bookkeeping_def dict_of_def ana_def schema_PhoneEntry map_add_def)
  then show ?thesis
    by (simp add: EntryBase_call_result schema_PhoneEntry Let_def keys_def ana_def)
qed

lemma call_red: "EntryBase_call Product [Str ''x'', Str ''red''] [] = Inr red"
proof -
  have "bookkeeping Product ++ dict_of [(''name'', Str ''x''), (''attributes'', Str ''red'')]
      = dict red"
    by (rule ext) (simp add: bookkeeping_def dict_of_def red_def schema_Product map_add_def)
  then show ?thesis
    by (simp add: EntryBase_call_result schema_Product Let_def keys_def red_def)
qed







section \<open>Collections\<close>

lemma list_index_less: "list_index n key = Some i \<Longrightarrow> i < n"
  by (auto simp: list_index_def split: if_splits)

lemma add_contact_call:
  "BookBase_add_contact b args kwargs =
     (case EntryBase_call (ENTRY_TYPE b) args kwargs of
        Inl err \<Rightarrow> (Some err, b)
      | Inr e \<Rightarrow> (None, b\<lparr>entries := entries b @ [e]\<rparr>))"
  by (simp add: BookBase_add_contact_def EntryBase_call_binding)

lemma step_type [simp]: "ENTRY_TYPE (step b a) = ENTRY_TYPE b"
  by (cases a) (auto simp: add_contact_call split: sum.splits option.splits)

lemma step_ok: "plain_schema (ENTRY_TYPE b) \<Longrightarrow> book_ok b \<Longrightarrow> book_ok (step b a)"
proof (cases a)
  case (AddContact args kwargs)
  assume p: "plain_schema (ENTRY_TYPE b)" and ok: "book_ok b"
  show ?thesis
  proof (cases "EntryBase_call (ENTRY_TYPE b) args kwargs")
    case (Inl err)
    with ok AddContact show ?thesis by (simp add: add_contact_call)
  next
    case (Inr e)
    from call_ok [OF p Inr] ok AddContact Inr show ?thesis
      by (auto simp: add_contact_call book_ok_def)
  qed
next
  case (SetAttr key name v)
  assume p: "plain_schema (ENTRY_TYPE b)" and ok: "book_ok b"
  show ?thesis
  proof (cases "list_index (length (entries b)) key")
    case None
    with ok SetAttr show ?thesis by simp
  next
    case (Some i)
    then have i: "i < length (entries b)" by (rule list_index_less)
    with ok have "entry_ok (ENTRY_TYPE b) (entries b ! i)" by (simp add: book_ok_def)
    with p have k: "entry_ok (ENTRY_TYPE b) (snd (EntryBase_setattr (entries b ! i) name v))"
      by (rule setattr_ok)
    have "\<forall>x\<in>set ((entries b)[i := snd (EntryBase_setattr (entries b ! i) name v)]).
        entry_ok (ENTRY_TYPE b) x"
    proof
      fix x assume "x \<in> set ((entries b)[i := snd (EntryBase_setattr (entries b ! i) name v)])"
      then have "x = snd (EntryBase_setattr (entries b ! i) name v) \<or> x \<in> set (entries b)"
        by (auto dest: set_update_subset_insert [THEN subsetD])
      then show "entry_ok (ENTRY_TYPE b) x"
        using k ok by (auto simp: book_ok_def)
    qed
    with ok SetAttr Some show ?thesis by (simp add: book_ok_def)
  qed
qed

lemma foldl_step_type [simp]: "ENTRY_TYPE (foldl step b acts) = ENTRY_TYPE b"
  by (induction acts arbitrary: b) simp_all

lemma foldl_step_ok:
  "plain_schema (ENTRY_TYPE b) \<Longrightarrow> book_ok b \<Longrightarrow> book_ok (foldl step b acts)"
  by (induction acts arbitrary: b) (simp_all add: step_ok)

lemma run_ok: "plain_schema T \<Longrightarrow> book_ok (run T acts)"
  unfolding run_def by (rule foldl_step_ok) (simp_all add: book_ok_def BookBase_call_def)

lemma run_type [simp]: "ENTRY_TYPE (run T acts) = T"
  by (simp add: run_def BookBase_call_def)

lemma run_snoc: "run T (acts @ [a]) = step (run T acts) a"
  by (simp add: run_def)

lemma run_entries: "plain_schema T \<Longrightarrow> e \<in> set (entries (run T acts)) \<Longrightarrow> entry_ok T e"
  using run_ok [of T acts] by (auto simp: book_ok_def)

lemma added_snoc:
  "added T (acts @ [a]) =
     added T acts @
       (case a of
          AddContact args kwargs \<Rightarrow>
            (case EntryBase_call T args kwargs of Inl err \<Rightarrow> [] | Inr e \<Rightarrow> [e])
        | SetAttr key name v \<Rightarrow> [])"
  by (induction T acts rule: added.induct) (auto split: sum.splits action.splits)

lemma assignments_append:
  "assignments e (xs @ ys) = assignments (assignments e xs) ys"
  by (induction xs arbitrary: e) auto

lemma insertion_order:
  "length (entries (run T acts)) = length (added T acts) \<and>
   (\<forall>i<length (added T acts). \<exists>ops.
      set ops \<subseteq> {(name, v). \<exists>key. SetAttr key name v \<in> set acts} \<and>
      entries (run T acts) ! i = assignments (added T acts ! i) ops)"
proof (induction acts rule: rev_induct)
  case Nil
  show ?case by (simp add: run_def BookBase_call_def)
next
  case (snoc a acts)
  let ?b = "run T acts"
  let ?A = "\<lambda>acts. {(name, v). \<exists>key. SetAttr key name v \<in> set acts}"
  from snoc have len: "length (entries ?b) = length (added T acts)"
    and old: "\<And>i. i < length (added T acts) \<Longrightarrow>
      \<exists>ops. set ops \<subseteq> ?A acts \<and> entries ?b ! i = assignments (added T acts ! i) ops"
    by auto
  have mono: "?A acts \<subseteq> ?A (acts @ [a])" by auto
  show ?case
  proof (cases a)
    case (AddContact args kwargs)
    show ?thesis
    proof (cases "EntryBase_call T args kwargs")
      case (Inl err)
      then have "run T (acts @ [a]) = ?b" "added T (acts @ [a]) = added T acts"
        by (simp_all add: run_snoc added_snoc AddContact add_contact_call)
      with len old mono show ?thesis by (metis (no_types, lifting) subset_trans)
    next
      case (Inr e)
      then have r: "entries (run T (acts @ [a])) = entries ?b @ [e]"
        and a: "added T (acts @ [a]) = added T acts @ [e]"
        by (simp_all add: run_snoc added_snoc AddContact add_contact_call)
      have "\<exists>ops. set ops \<subseteq> ?A (acts @ [a]) \<and>
          (entries ?b @ [e]) ! i = assignments ((added T acts @ [e]) ! i) ops"
        if "i < length (added T acts @ [e])" for i
      proof (cases "i < length (added T acts)")
        case True
        from old [OF True] obtain ops where "set ops \<subseteq> ?A acts"
          "entries ?b ! i = assignments (added T acts ! i) ops" by blast
        with mono True len show ?thesis
          by (intro exI [of _ ops]) (auto simp: nth_append)
      next
        case False
        with that have "i = length (added T acts)" by simp
        with len show ?thesis by (intro exI [of _ "[]"]) (simp add: nth_append)
      qed
      with len show ?thesis unfolding r a by simp
    qed
  next
    case (SetAttr key name v)
    then have a: "added T (acts @ [a]) = added T acts" by (simp add: added_snoc)
    show ?thesis
    proof (cases "list_index (length (entries ?b)) key")
      case None
      then have "run T (acts @ [a]) = ?b" by (simp add: run_snoc SetAttr)
      with len old mono a show ?thesis by (metis (no_types, lifting) subset_trans)
    next
      case (Some k)
      then have k: "k < length (entries ?b)" by (rule list_index_less)
      let ?e = "snd (EntryBase_setattr (entries ?b ! k) name v)"
      from Some have r: "entries (run T (acts @ [a])) = (entries ?b)[k := ?e]"
        by (simp add: run_snoc SetAttr)
      have new: "(name, v) \<in> ?A (acts @ [a])" using SetAttr by auto
      have "\<exists>ops. set ops \<subseteq> ?A (acts @ [a]) \<and>
          (entries ?b)[k := ?e] ! i = assignments (added T acts ! i) ops"
        if i: "i < length (added T acts)" for i
      proof -
        from old [OF i] obtain ops where ops: "set ops \<subseteq> ?A acts"
          "entries ?b ! i = assignments (added T acts ! i) ops" by blast
        show ?thesis
        proof (cases "i = k")
          case True
          have "?e = assignments (added T acts ! i) (ops @ [(name, v)])"
            using ops(2) True by (simp add: assignments_append)
          moreover have "set (ops @ [(name, v)]) \<subseteq> ?A (acts @ [a])"
            using ops(1) mono new by auto
          ultimately show ?thesis using True k
            by (intro exI [of _ "ops @ [(name, v)]"]) simp
        next
          case False
          with ops mono show ?thesis by (intro exI [of _ ops]) auto
        qed
      qed
      with len show ?thesis unfolding r a by simp
    qed
  qed
qed

lemma call_bob: "EntryBase_call PhoneEntry [Str ''bob'', Num 5678] [] = Inr bob"
proof -
  have "bookkeeping PhoneEntry ++ dict_of [(''name'', Str ''bob''), (''phone'', Num 5678)]
      = dict bob"
    by (rule ext) (simp add: bookkeeping_def dict_of_def bob_def schema_PhoneEntry map_add_def)
  then show ?thesis
    by (simp add: EntryBase_call_result schema_PhoneEntry Let_def keys_def bob_def)
qed

lemma run_two_contacts:
  "run PhoneEntry two_contacts =
     \<lparr>ENTRY_TYPE = PhoneEntry, book_attributes = [''name'', ''phone''], entries = [ana, bob]\<rparr>"
  by (simp add: run_def two_contacts_def BookBase_call_def add_contact_call call_ana
      call_bob schema_PhoneEntry)

lemma added_two_contacts: "added PhoneEntry two_contacts = [ana, bob]"
  by (simp add: two_contacts_def call_ana call_bob)

lemma dict_ana:
  "dict ana = dict_of [(''attributes'', Tuple [''name'', ''phone'']),
      (''_can_set_any_attr'', Bool False), (''name'', Str ''ana''), (''phone'', Num 1234)]"
  by (simp add: ana_def)

lemma dict_bob:
  "dict bob = dict_of [(''attributes'', Tuple [''name'', ''phone'']),
      (''_can_set_any_attr'', Bool False), (''name'', Str ''bob''), (''phone'', Num 5678)]"
  by (simp add: bob_def)

lemma ana_neq_bob: "ana \<noteq> bob"
proof
  assume "ana = bob"
  then have "dict ana ''name'' = dict bob ''name''" by simp
  then show False by (simp add: dict_ana dict_bob dict_of_def)
qed

text \<open>
  Claim C6. In any state of a book, when the construction of the new record succeeds,
  \<open>add_contact\<close> appends it as the last entry and leaves the earlier entries as they
  were, in their order; when the construction fails, the caller gets that very error and
  the book is exactly as before the call.
\<close>

theorem add_contact_atomic:
  "let b = run T acts; r = EntryBase_call T args kwargs
   in (\<forall>e. r = Inr e \<longrightarrow>
         BookBase_add_contact b args kwargs = (None, b\<lparr>entries := entries b @ [e]\<rparr>)) \<and>
      (\<forall>err. r = Inl err \<longrightarrow> BookBase_add_contact b args kwargs = (Some err, b)) \<and>
      take (length (entries b)) (entries (snd (BookBase_add_contact b args kwargs))) = entries b"
  by (auto simp: Let_def add_contact_call split: sum.splits)

theorem add_contact_atomic_witness:
  "EntryBase_call PhoneEntry [Str ''bob'', Num 5678] [] = Inr bob \<and>
   BookBase_add_contact (run PhoneEntry [AddContact [Str ''ana'', Num 1234] []])
       [Str ''bob'', Num 5678] []
     = (None, \<lparr>ENTRY_TYPE = PhoneEntry, book_attributes = [''name'', ''phone''],
               entries = [ana, bob]\<rparr>) \<and>
   EntryBase_call PhoneEntry [Str ''bob''] [(''name'', Str ''bob'')]
     = Inl (DuplicateArgument {''name''}) \<and>
   BookBase_add_contact (run PhoneEntry [AddContact [Str ''ana'', Num 1234] []])
       [Str ''bob''] [(''name'', Str ''bob'')]
     = (Some (DuplicateArgument {''name''}),
        \<lparr>ENTRY_TYPE = PhoneEntry, book_attributes = [''name'', ''phone''], entries = [ana]\<rparr>)"
proof -
  have r: "run PhoneEntry [AddContact [Str ''ana'', Num 1234] []] =
      \<lparr>ENTRY_TYPE = PhoneEntry, book_attributes = [''name'', ''phone''], entries = [ana]\<rparr>"
    by (simp add: run_def BookBase_call_def add_contact_call call_ana schema_PhoneEntry)
  have d: "EntryBase_call PhoneEntry [Str ''bob''] [(''name'', Str ''bob'')]
     = Inl (DuplicateArgument {''name''})"
    by (simp add: EntryBase_call_result schema_PhoneEntry Let_def keys_def)
  show ?thesis
    using add_contact_atomic [where T = PhoneEntry
        and acts = "[AddContact [Str ''ana'', Num 1234] []]"
        and args = "[Str ''bob'', Num 5678 :: unit pyvalue]" and kwargs = "[]"]
      add_contact_atomic [where T = PhoneEntry
        and acts = "[AddContact [Str ''ana'', Num 1234] []]"
        and args = "[Str ''bob'' :: unit pyvalue]" and kwargs = "[(''name'', Str ''bob'')]"]
    by (simp add: Let_def call_bob d r)
qed

text \<open>
  Claim C9. A book holds exactly the records added to it, in the order they were added:
  position \<open>i\<close> below the entry count returns the record added \<open>(i+1)\<close>-th (as
  constructed, with the assignments made to it since), and every position from the
  entry count upwards fails with IndexOutOfRange.
\<close>

theorem positional_access:
  "let b = run T acts; n = length (entries b)
   in n = length (added T acts) \<and>
      (\<forall>i<n. \<exists>ops. set ops \<subseteq> {(name, v). \<exists>key. SetAttr key name v \<in> set acts} \<and>
         BookBase_getitem b (int i) = Inr (assignments (added T acts ! i) ops)) \<and>
      (\<forall>key. int n \<le> key \<longrightarrow> BookBase_getitem b key = Inl IndexOutOfRange)"
proof -
  have g: "BookBase_getitem (run T acts) (int i) = Inr (entries (run T acts) ! i)"
    if "i < length (entries (run T acts))" for i
    using that by (simp add: BookBase_getitem_def list_index_def)
  have o: "BookBase_getitem (run T acts) key = Inl IndexOutOfRange"
    if "int (length (entries (run T acts))) \<le> key" for key
    using that by (simp add: BookBase_getitem_def list_index_def)
  show ?thesis
    unfolding Let_def using insertion_order [of T acts] g o by auto
qed

theorem positional_access_witness:
  "length (entries (run PhoneEntry two_contacts)) = 2 \<and>
   BookBase_getitem (run PhoneEntry two_contacts) 0 = Inr ana \<and>
   BookBase_getitem (run PhoneEntry two_contacts) 1 = Inr bob \<and>
   BookBase_getitem (run PhoneEntry two_contacts) 2 = Inl IndexOutOfRange"
  using positional_access [of PhoneEntry two_contacts]
  by (simp add: run_two_contacts added_two_contacts Let_def BookBase_getitem_def list_index_def)

text \<open>
  Claim C10. With \<open>n\<close> entries and \<open>1 \<le> i \<le> n\<close>, position \<open>-i\<close> returns the entry at
  position \<open>n - i\<close>, as Python's list indexing does; it does not fail.
\<close>

theorem negative_access:
  "1 \<le> i \<Longrightarrow> i \<le> length (entries b) \<Longrightarrow>
   BookBase_getitem b (- int i) = Inr (entries b ! (length (entries b) - i)) \<and>
   BookBase_getitem b (- int i) = BookBase_getitem b (int (length (entries b) - i))"
  by (auto simp: BookBase_getitem_def list_index_def nat_diff_distrib' of_nat_diff)

theorem negative_access_witness:
  "(1::nat) \<le> 1 \<and> 1 \<le> length (entries (run PhoneEntry two_contacts)) \<and>
   BookBase_getitem (run PhoneEntry two_contacts) (- 1) = Inr bob \<and>
   BookBase_getitem (run PhoneEntry two_contacts) (- 2) = Inr ana"
  using negative_access [of 1 "run PhoneEntry two_contacts"]
    negative_access [of 2 "run PhoneEntry two_contacts"]
  by (simp add: run_two_contacts)

section \<open>Search\<close>

lemma getitem_ok:
  "entry_ok T e \<Longrightarrow>
   EntryBase_getitem e k =
     (if k \<in> set (get_all_attributes T) then Inr (the (dict e k)) else Inl (UnknownAttribute k))"
proof -
  assume ok: "entry_ok T e"
  then have a: "getattr e ''attributes'' = Inr (Tuple (get_all_attributes T))"
    by (simp add: getattr_def entry_ok_def)
  show ?thesis
  proof (cases "k \<in> set (get_all_attributes T)")
    case True
    with ok have "k \<in> dom (dict e)" by (simp add: entry_ok_def)
    then obtain y where "dict e k = Some y" by auto
    with True a show ?thesis by (simp add: EntryBase_getitem_def getattr_def)
  next
    case False
    with a show ?thesis by (simp add: EntryBase_getitem_def)
  qed
qed

lemma getitem_ok_value:
  "entry_ok T e \<Longrightarrow> k \<in> set (get_all_attributes T) \<Longrightarrow>
   py_eq (the (dict e k)) v = (\<exists>x. dict e k = Some x \<and> py_eq x v)"
proof -
  assume "entry_ok T e" "k \<in> set (get_all_attributes T)"
  then have "k \<in> dom (dict e)" by (simp add: entry_ok_def)
  then obtain y where "dict e k = Some y" by auto
  then show ?thesis by simp
qed

lemma matches_known:
  "entry_ok T e \<Longrightarrow> keys kwargs \<subseteq> set (get_all_attributes T) \<Longrightarrow>
   entry_matches e kwargs = Inr (satisfies e kwargs)"
proof (induction kwargs)
  case Nil
  then show ?case by (simp add: satisfies_def)
next
  case (Cons p kwargs)
  obtain k v where p: "p = (k, v)" by (cases p)
  from Cons.prems have k: "k \<in> set (get_all_attributes T)"
    and rest: "keys kwargs \<subseteq> set (get_all_attributes T)"
    by (auto simp: keys_def p)
  from Cons.IH [OF Cons.prems(1) rest] getitem_ok_value [OF Cons.prems(1) k, of v]
  show ?case
    by (auto simp: p getitem_ok [OF Cons.prems(1)] k satisfies_def)
qed

lemma matches_unknown:
  "entry_ok T e \<Longrightarrow> keys pre \<subseteq> set (get_all_attributes T) \<Longrightarrow>
   k \<notin> set (get_all_attributes T) \<Longrightarrow>
   entry_matches e (pre @ (k, v) # post) =
     (if satisfies e pre then Inl (UnknownAttribute k) else Inr False)"
proof (induction pre)
  case Nil
  then show ?case by (simp add: satisfies_def getitem_ok [OF Nil.prems(1)])
next
  case (Cons p pre)
  obtain k' v' where p: "p = (k', v')" by (cases p)
  from Cons.prems have k': "k' \<in> set (get_all_attributes T)"
    and rest: "keys pre \<subseteq> set (get_all_attributes T)"
    by (auto simp: keys_def p)
  from Cons.IH [OF Cons.prems(1) rest Cons.prems(3)]
    getitem_ok_value [OF Cons.prems(1) k', of v']
  show ?case
    by (auto simp: p getitem_ok [OF Cons.prems(1)] k' satisfies_def)
qed

lemma find_loop_known:
  "\<forall>e\<in>set es. entry_ok T e \<Longrightarrow> keys kwargs \<subseteq> set (get_all_attributes T) \<Longrightarrow>
   find_loop es kwargs acc = Inr (acc @ filter (\<lambda>e. satisfies e kwargs) es)"
  by (induction es arbitrary: acc) (simp_all add: matches_known [where T = T])

lemma find_loop_unknown:
  "\<forall>e\<in>set es. entry_ok T e \<Longrightarrow> keys pre \<subseteq> set (get_all_attributes T) \<Longrightarrow>
   k \<notin> set (get_all_attributes T) \<Longrightarrow>
   find_loop es (pre @ (k, v) # post) acc =
     (if \<exists>e\<in>set es. satisfies e pre then Inl (UnknownAttribute k) else Inr acc)"
  by (induction es arbitrary: acc) (simp_all add: matches_unknown [where T = T])

text \<open>
  Claim C4. Take a book of a record type whose schema is plain, in any state, and
  criteria none of which is named \<open>self\<close> (that keyword collides with the first
  parameter of \<open>find\<close>, and the call is rejected when the arguments are bound). When
  every criterion name is in the schema, \<open>find\<close> returns, in insertion order, exactly
  the stored records that satisfy all the criteria; with no criteria it returns all
  entries; when no record satisfies them it returns the empty list. When a criterion
  name is outside the schema, let \<open>k\<close> be the first such name of the call: \<open>find\<close>
  fails with UnknownAttribute for \<open>k\<close> exactly when some stored record satisfies all
  the criteria that precede \<open>k\<close>, and returns the empty list otherwise, because the
  scan of a record stops at its first criterion that differs.
\<close>

theorem find_law:
  "plain_schema T \<Longrightarrow> ''self'' \<notin> keys kwargs \<Longrightarrow>
   (let b = run T acts; S = get_all_attributes T
    in (keys kwargs \<subseteq> set S \<longrightarrow>
          BookBase_find b kwargs = Inr (filter (\<lambda>e. satisfies e kwargs) (entries b))) \<and>
       (kwargs = [] \<longrightarrow> BookBase_find b kwargs = Inr (entries b)) \<and>
       (keys kwargs \<subseteq> set S \<and> (\<forall>e\<in>set (entries b). \<not> satisfies e kwargs) \<longrightarrow>
          BookBase_find b kwargs = Inr []) \<and>
       (\<forall>pre k v post. kwargs = pre @ (k, v) # post \<and> keys pre \<subseteq> set S \<and> k \<notin> set S \<longrightarrow>
          BookBase_find b kwargs =
            (if \<exists>e\<in>set (entries b). satisfies e pre then Inl (UnknownAttribute k)
             else Inr [])))"
proof -
  assume p: "plain_schema T" and s: "''self'' \<notin> keys kwargs"
  let ?b = "run T acts"
  have f: "BookBase_find ?b kwargs = find_loop (entries ?b) kwargs []"
    using s by (simp add: BookBase_find_def)
  have ok: "\<forall>e\<in>set (entries ?b). entry_ok T e" using p by (simp add: run_entries)
  have 1: "BookBase_find ?b kwargs = Inr (filter (\<lambda>e. satisfies e kwargs) (entries ?b))"
    if "keys kwargs \<subseteq> set (get_all_attributes T)"
    using find_loop_known [OF ok that, of "[]"] by (simp add: f)
  have 2: "BookBase_find ?b kwargs = Inr (entries ?b)" if "kwargs = []"
    using find_loop_known [OF ok, of "[]" "[]"] that
    by (simp add: BookBase_find_def keys_def satisfies_def)
  have 3: "BookBase_find ?b kwargs = Inr []"
    if "keys kwargs \<subseteq> set (get_all_attributes T)" "\<forall>e\<in>set (entries ?b). \<not> satisfies e kwargs"
    using 1 [OF that(1)] that(2) by simp
  have 4: "BookBase_find ?b kwargs =
      (if \<exists>e\<in>set (entries ?b). satisfies e pre then Inl (UnknownAttribute k) else Inr [])"
    if "kwargs = pre @ (k, v) # post" "keys pre \<subseteq> set (get_all_attributes T)"
      "k \<notin> set (get_all_attributes T)"
    for pre k v post
    using find_loop_unknown [OF ok that(2,3), of v post "[]"] f by (simp add: that(1))
  show ?thesis unfolding Let_def using 1 2 3 4 by blast
qed

theorem find_law_witness:
  "plain_schema PhoneEntry \<and> ''self'' \<notin> keys [(''name'', Str ''ana'' :: unit pyvalue)] \<and>
   keys [(''name'', Str ''ana'' :: unit pyvalue)] \<subseteq> set (get_all_attributes PhoneEntry) \<and>
   BookBase_find (run PhoneEntry two_contacts) [(''name'', Str ''ana'')] = Inr [ana] \<and>
   BookBase_find (run PhoneEntry two_contacts) [(''phone'', Num 9999)] = Inr [] \<and>
   BookBase_find (run PhoneEntry two_contacts) [] = Inr [ana, bob] \<and>
   BookBase_find (run PhoneEntry two_contacts) [(''name'', Str ''ana''), (''email'', Str ''a'')]
     = Inl (UnknownAttribute ''email'')"
proof -
  have k: "''self'' \<notin> keys [(''name'', Str ''ana'' :: unit pyvalue)]" by (simp add: keys_def)
  show ?thesis
    using plain_PhoneEntry k
      find_law [OF plain_PhoneEntry k, where acts = two_contacts]
    by (simp add: run_two_contacts Let_def BookBase_find_def EntryBase_getitem_def getattr_def
        dict_ana dict_bob dict_of_def keys_def schema_PhoneEntry)
qed

text \<open>
  As the claim words it, a criterion name outside the schema always makes the lookup
  fail. Here \<open>bogus\<close> is outside the schema and \<open>find\<close> returns the empty list: the
  only record already differs on \<open>name\<close>, and an empty book looks nothing up.
\<close>

theorem find_law_counterexample:
  "''bogus'' \<notin> set (get_all_attributes PhoneEntry) \<and>
   BookBase_find (run PhoneEntry [AddContact [Str ''ana'', Num 1234 :: unit pyvalue] []])
       [(''name'', Str ''bob''), (''bogus'', Num 1)] = Inr [] \<and>
   BookBase_find (run PhoneEntry ([] :: unit action list)) [(''bogus'', Num 1)] = Inr []"
  by (simp add: run_def BookBase_call_def add_contact_call call_ana schema_PhoneEntry
      BookBase_find_def EntryBase_getitem_def getattr_def dict_ana dict_of_def keys_def)

section \<open>The schema is computed at every construction\<close>

lemma new_logged: "EntryBase_new_logged c log = (EntryBase_new c, log @ [c])"
  by (simp add: EntryBase_new_logged_def EntryBase_new_def get_all_attributes_logged_def)

lemma call_logged:
  "EntryBase_call_logged c args kwargs log =
     (EntryBase_call c args kwargs, if ''cls'' \<in> keys kwargs then log else log @ [c])"
  by (simp add: EntryBase_call_logged_def new_logged EntryBase_call_def)

lemma construct_all_result:
  "construct_all calls log =
     (map (\<lambda>(c, args, kwargs). EntryBase_call c args kwargs) calls,
      log @ map fst (filter (\<lambda>(c, args, kwargs). ''cls'' \<notin> keys kwargs) calls))"
  by (induction calls arbitrary: log) (auto simp: call_logged)

lemma assignments_attributes:
  assumes "plain_schema c" "EntryBase_call c args kwargs = Inr e"
  shows "getattr (assignments e ops) ''attributes'' = Inr (Tuple (get_all_attributes c))"
  using assignments_entry_ok [OF assms(1) call_ok [OF assms], of ops]
  by (simp add: getattr_def entry_ok_def)

text \<open>
  Claim C7. For record types whose schema is plain, the schema is a function of the
  class alone, so every instance of a type reports the same schema, at construction and
  after any assignments. It is not cached per type, though: every constructor call that
  reaches \<open>__new__\<close> (every call without a keyword named \<open>cls\<close>) computes it again,
  so a sequence of constructions extends the log by one computation per such call.
\<close>

theorem schema_per_instance:
  "\<forall>(c, args, kwargs)\<in>set calls. plain_schema c \<Longrightarrow>
   (case construct_all calls log of
     (results, log') \<Rightarrow>
       log' = log @ map fst (filter (\<lambda>(c, args, kwargs). ''cls'' \<notin> keys kwargs) calls) \<and>
       length results = length calls \<and>
       (\<forall>i<length calls. \<forall>e. results ! i = Inr e \<longrightarrow>
          (\<forall>ops. getattr (assignments e ops) ''attributes''
                   = Inr (Tuple (get_all_attributes (fst (calls ! i)))))))"
proof -
  assume p: "\<forall>(c, args, kwargs)\<in>set calls. plain_schema c"
  have "getattr (assignments e ops) ''attributes'' = Inr (Tuple (get_all_attributes (fst (calls ! i))))"
    if i: "i < length calls"
      and e: "map (\<lambda>(c, args, kwargs). EntryBase_call c args kwargs) calls ! i = Inr e"
    for i e ops
  proof -
    obtain c args kwargs where c: "calls ! i = (c, args, kwargs)" by (cases "calls ! i")
    with i e have call: "EntryBase_call c args kwargs = Inr e" by simp
    from i have "calls ! i \<in> set calls" by simp
    with p c have "plain_schema c" by auto
    from assignments_attributes [OF this call] show ?thesis by (simp add: c)
  qed
  then show ?thesis by (simp add: construct_all_result)
qed

theorem schema_per_instance_witness:
  "plain_schema PhoneEntry \<and>
   construct_all [(PhoneEntry, [Str ''ana'', Num 1234], []), (PhoneEntry, [Str ''bob'', Num 5678], [])] []
     = ([Inr ana, Inr bob], [PhoneEntry, PhoneEntry]) \<and>
   getattr (assignments ana [(''phone'', Num 1)]) ''attributes''
     = Inr (Tuple (get_all_attributes PhoneEntry)) \<and>
   getattr (assignments bob []) ''attributes'' = Inr (Tuple (get_all_attributes PhoneEntry))"
  using schema_per_instance [where log = "[]" and
      calls = "[(PhoneEntry, [Str ''ana'', Num 1234 :: unit pyvalue], []),
                (PhoneEntry, [Str ''bob'', Num 5678], [])]"] plain_PhoneEntry
  by (simp add: construct_all_result call_ana call_bob less_Suc_eq all_conj_distrib keys_def
      del: assignments.simps)

text \<open>
  As the claim words it, the schema is computed once per type and not per instance, and
  every instance reports the schema of its type. Two records of one type leave two
  computations for that type in the log; and the record \<open>Product('x', 'red')\<close>
  reports \<open>'red'\<close> where its type's schema is \<open>('name', 'attributes')\<close>.
\<close>

theorem schema_per_instance_counterexample:
  "snd (construct_all
      [(PhoneEntry, [Str ''ana'', Num 1234 :: unit pyvalue], []),
       (PhoneEntry, [Str ''bob'', Num 5678], [])] [])
     = [PhoneEntry, PhoneEntry] \<and>
   length (filter (\<lambda>c. c = PhoneEntry)
     (snd (construct_all
      [(PhoneEntry, [Str ''ana'', Num 1234 :: unit pyvalue], []),
       (PhoneEntry, [Str ''bob'', Num 5678], [])] [])))
     = 2 \<and>
   EntryBase_call Product [Str ''x'', Str ''red''] [] = Inr red \<and>
   getattr red ''attributes'' = Inr (Str ''red'') \<and>
   get_all_attributes Product = [''name'', ''attributes'']"
  by (simp add: construct_all_result keys_def call_red schema_Product getattr_def red_def dict_of_def)

section \<open>Copying\<close>

lemma zip_fst_snd: "zip (map fst d) (map (f \<circ> snd) d) = map (map_prod id f) d"
  by (induction d) auto

lemma rebuild_children: "rebuild x (map f (children x)) = map_obj f x"
  by (cases x) (simp_all add: zip_fst_snd split: option.splits)

lemma set_children: "set (children x) = set_obj x"
  by (cases x) (force split: option.splits)+

lemma set_shell: "set_obj (shell x) = {}"
  by (cases x) auto

lemma valid_simps [simp]: "valid h (Atom a)" "valid h (Ref p) = (p < length h)"
  by (simp_all add: valid_def)

lemma heap_ok_child: "heap_ok h \<Longrightarrow> p < length h \<Longrightarrow> c \<in> set_obj (h ! p) \<Longrightarrow> valid h c"
  by (auto simp: heap_ok_def)

lemma heap_okD: "heap_ok h \<Longrightarrow> p < length h \<Longrightarrow> Ref r \<in> set_obj (h ! p) \<Longrightarrow> r < length h"
  using heap_ok_child [of h p "Ref r"] by simp

lemma heap_okI:
  assumes "\<And>p r. p < length h \<Longrightarrow> Ref r \<in> set_obj (h ! p) \<Longrightarrow> r < length h"
  shows "heap_ok h"
  unfolding heap_ok_def
proof (intro ballI)
  fix x v assume "x \<in> set h" "v \<in> set_obj x"
  then obtain p where "p < length h" "h ! p = x" by (auto simp: in_set_conv_nth)
  with assms [of p] \<open>v \<in> set_obj x\<close> show "valid h v" by (cases v) auto
qed

lemma reach_child:
  assumes "p < length h" "c \<in> set_obj (h ! p)"
  shows "reach h c \<subseteq> reach h (Ref p)"
proof
  fix a assume "a \<in> reach h c"
  then show "a \<in> reach h (Ref p)"
  proof (induction rule: reach.induct)
    case (start r)
    with assms have "Ref r \<in> set_obj (h ! p)" by simp
    moreover have "p \<in> reach h (Ref p)" using assms(1) by (auto intro: reach.start)
    ultimately show ?case using start by (auto intro: reach.step)
  next
    case (step q r)
    then show ?case by (auto intro: reach.step)
  qed
qed

lemma view_cong:
  "heap_ok h \<Longrightarrow> valid h v \<Longrightarrow> (\<forall>a\<in>reach h v. a < length h' \<and> h' ! a = h ! a) \<Longrightarrow>
   view n h' v = view n h v"
proof (induction n arbitrary: v)
  case 0
  then show ?case by (cases v) simp_all
next
  case (Suc n)
  show ?case
  proof (cases v)
    case (Atom a)
    then show ?thesis by simp
  next
    case (Ref p)
    with Suc.prems have True: "p < length h" by simp
    then have p: "p \<in> reach h v" using Ref by (auto intro: reach.start)
    with Suc.prems have p': "p < length h'" "h' ! p = h ! p" by auto
    have "view n h' c = view n h c" if c: "c \<in> set_obj (h ! p)" for c
    proof (rule Suc.IH [OF Suc.prems(1)])
      show "valid h c" using Suc.prems(1) True c by (rule heap_ok_child)
      from reach_child [OF True c] Ref Suc.prems
      show "\<forall>a\<in>reach h c. a < length h' \<and> h' ! a = h ! a" by auto
    qed
    then have "map_obj (view n h') (h ! p) = map_obj (view n h) (h ! p)"
      by (intro obj.map_cong) auto
    with True p' Ref show ?thesis by simp
  qed
qed

lemma reach_less: "a \<in> reach h v \<Longrightarrow> a < length h"
  by (induction rule: reach.induct) auto

lemma view_update:
  "heap_ok h \<Longrightarrow> valid h v \<Longrightarrow> a \<notin> reach h v \<Longrightarrow> view n (h[a := x]) v = view n h v"
proof (rule view_cong)
  assume a: "a \<notin> reach h v"
  show "\<forall>b\<in>reach h v. b < length (h[a := x]) \<and> h[a := x] ! b = h ! b"
  proof
    fix b assume b: "b \<in> reach h v"
    with a have "a \<noteq> b" by auto
    with b show "b < length (h[a := x]) \<and> h[a := x] ! b = h ! b"
      by (simp add: reach_less)
  qed
qed

lemma reach_below:
  assumes "\<forall>p<k. \<forall>r. Ref r \<in> set_obj (h ! p) \<longrightarrow> r < k" "p0 < k"
  shows "reach h (Ref p0) \<subseteq> {..<k}"
proof
  fix a assume "a \<in> reach h (Ref p0)"
  then show "a \<in> {..<k}"
    by (induction rule: reach.induct) (use assms in auto)
qed

lemma reach_above:
  assumes "\<forall>q. k \<le> q \<and> q < length h \<longrightarrow> (\<forall>r. Ref r \<in> set_obj (h ! q) \<longrightarrow> k \<le> r)" "k \<le> q0"
  shows "reach h (Ref q0) \<subseteq> {k..}"
proof
  fix a assume "a \<in> reach h (Ref q0)"
  then have "k \<le> a \<and> a < length h"
    by (induction rule: reach.induct) (use assms in auto)
  then show "a \<in> {k..}" by simp
qed

lemma remap_simps [simp]:
  "remap m (Atom a) = Atom a"
  "m p = Some q \<Longrightarrow> remap m (Ref p) = Ref q"
  by (simp_all add: remap_def)

lemma copyingD:
  assumes "copying h0 G h m"
  shows "length h0 \<le> length h"
    and "p < length h0 \<Longrightarrow> h ! p = h0 ! p"
    and "m p = Some q \<Longrightarrow> p < length h0 \<and> length h0 \<le> q \<and> q < length h"
    and "m p = Some q \<Longrightarrow> m p' = Some q \<Longrightarrow> p = p'"
    and "length h0 \<le> q \<Longrightarrow> q < length h \<Longrightarrow> Ref r \<in> set_obj (h ! q) \<Longrightarrow> length h0 \<le> r \<and> r < length h"
    and "m p = Some q \<Longrightarrow> p \<notin> G \<Longrightarrow> h ! q = map_obj (remap m) (h0 ! p)"
    and "m p = Some q \<Longrightarrow> p \<notin> G \<Longrightarrow> Ref r \<in> set_obj (h0 ! p) \<Longrightarrow> r \<in> dom m"
  using assms unfolding copying_def by blast+

lemma remap_cong_obj:
  assumes "\<And>r. Ref r \<in> set_obj x \<Longrightarrow> m r = m' r"
  shows "map_obj (remap m) x = map_obj (remap m') x"
proof (rule obj.map_cong [OF refl])
  fix c assume "c \<in> set_obj x"
  with assms show "remap m c = remap m' c" by (cases c) (auto simp: remap_def)
qed

lemma dom_memo_finite: "copying h0 G h m \<Longrightarrow> dom m \<subseteq> {..<length h0}"
  by (auto dest: copyingD(3))

lemma copying_alloc:
  assumes c: "copying h0 G h m" and p: "p < length h0" and n: "m p = None"
    and s: "set_obj s = {}"
  shows "copying h0 (insert p G) (h @ [s]) (m(p \<mapsto> length h))"
  unfolding copying_def
proof (intro conjI allI impI)
  let ?m = "m(p \<mapsto> length h)"
  show "length h0 \<le> length (h @ [s])" using copyingD(1) [OF c] by simp
  show "(h @ [s]) ! a = h0 ! a" if "a < length h0" for a
    using that copyingD(1,2) [OF c] by (simp add: nth_append)
  show "a < length h0" and "length h0 \<le> q" and "q < length (h @ [s])"
    if "?m a = Some q" for a q
    using that copyingD(1) [OF c] copyingD(3) [OF c, of a q] p by (auto split: if_splits)
  show "a = a'" if "?m a = Some q \<and> ?m a' = Some q" for a a' q
    using that copyingD(3) [OF c, of a q] copyingD(3) [OF c, of a' q] copyingD(4) [OF c, of a q a']
    by (auto split: if_splits)
  show "length h0 \<le> r" and "r < length (h @ [s])"
    if "length h0 \<le> q \<and> q < length (h @ [s]) \<and> Ref r \<in> set_obj ((h @ [s]) ! q)" for q r
    using that copyingD(5) [OF c, of q r] s by (auto simp: nth_append split: if_splits)
  show "(h @ [s]) ! q = map_obj (remap ?m) (h0 ! a)"
    if a: "?m a = Some q \<and> a \<notin> insert p G" for a q
  proof -
    from a have ma: "m a = Some q" and ag: "a \<notin> G" by (auto split: if_splits)
    have "map_obj (remap ?m) (h0 ! a) = map_obj (remap m) (h0 ! a)"
    proof (rule remap_cong_obj)
      fix r assume "Ref r \<in> set_obj (h0 ! a)"
      from copyingD(7) [OF c ma ag this] n have "r \<noteq> p" by auto
      then show "?m r = m r" by simp
    qed
    moreover have "(h @ [s]) ! q = h ! q" using copyingD(3) [OF c ma] by (simp add: nth_append)
    ultimately show ?thesis using copyingD(6) [OF c ma ag] by simp
  qed
  show "r \<in> dom ?m" if "?m a = Some q \<and> a \<notin> insert p G" "Ref r \<in> set_obj (h0 ! a)" for a q r
  proof -
    from that have ma: "m a = Some q" and ag: "a \<notin> G" by (auto split: if_splits)
    from copyingD(7) [OF c ma ag that(2)] show ?thesis by auto
  qed
qed

lemma set_obj_remap:
  assumes "Ref r' \<in> set_obj (map_obj (remap m) x)" "\<And>r. Ref r \<in> set_obj x \<Longrightarrow> r \<in> dom m"
  shows "\<exists>r. m r = Some r'"
proof -
  from assms(1) have "Ref r' \<in> remap m ` set_obj x" by (simp only: obj.set_map)
  then obtain c where c: "c \<in> set_obj x" "Ref r' = remap m c" by blast
  show ?thesis
  proof (cases c)
    case (Atom a)
    with c show ?thesis by simp
  next
    case (Ref r)
    with c assms(2) [of r] obtain q where "m r = Some q" by auto
    with c Ref show ?thesis by auto
  qed
qed

lemma copying_fill:
  assumes c: "copying h0 (insert p G) h m" and q: "m p = Some q"
    and ch: "\<And>r. Ref r \<in> set_obj (h0 ! p) \<Longrightarrow> r \<in> dom m"
  shows "copying h0 G (h[q := map_obj (remap m) (h0 ! p)]) m"
  unfolding copying_def
proof (intro conjI allI impI)
  let ?h = "h[q := map_obj (remap m) (h0 ! p)]"
  note qb = copyingD(3) [OF c q]
  show "length h0 \<le> length ?h" using copyingD(1) [OF c] by simp
  show "?h ! a = h0 ! a" if "a < length h0" for a
    using that copyingD(2) [OF c that] qb by simp
  show "a < length h0" and "length h0 \<le> b" and "b < length ?h" if "m a = Some b" for a b
    using copyingD(3) [OF c that] by simp_all
  show "a = a'" if "m a = Some b \<and> m a' = Some b" for a a' b
    using that copyingD(4) [OF c, of a b a'] by simp
  show "length h0 \<le> r" and "r < length ?h"
    if h: "length h0 \<le> b \<and> b < length ?h \<and> Ref r \<in> set_obj (?h ! b)" for b r
  proof -
    have "length h0 \<le> r \<and> r < length h"
    proof (cases "b = q")
      case True
      with h qb have "Ref r \<in> set_obj (map_obj (remap m) (h0 ! p))" by simp
      from set_obj_remap [OF this ch] obtain r0 where "m r0 = Some r" by blast
      from copyingD(3) [OF c this] show ?thesis by simp
    next
      case False
      with h copyingD(5) [OF c, of b r] show ?thesis by simp
    qed
    then show "length h0 \<le> r" and "r < length ?h" by simp_all
  qed
  show "?h ! b = map_obj (remap m) (h0 ! a)" if a: "m a = Some b \<and> a \<notin> G" for a b
  proof (cases "a = p")
    case True
    with a q qb show ?thesis by simp
  next
    case False
    with a q copyingD(4) [OF c, of a b p] have "b \<noteq> q" by auto
    with a False copyingD(6) [OF c, of a b] show ?thesis by simp
  qed
  show "r \<in> dom m" if a: "m a = Some b \<and> a \<notin> G" "Ref r \<in> set_obj (h0 ! a)" for a b r
  proof (cases "a = p")
    case True
    with ch that(2) show ?thesis by simp
  next
    case False
    with a copyingD(7) [OF c, of a b r] show ?thesis by simp
  qed
qed

lemma remap_mono:
  "m \<subseteq>\<^sub>m m' \<Longrightarrow> (\<forall>p. v = Ref p \<longrightarrow> p \<in> dom m) \<Longrightarrow> remap m' v = remap m v"
  by (cases v) (auto simp: remap_def map_le_def dom_def split: option.splits)

lemma card_dom_mono:
  assumes "copying h0 G h' m'" "m \<subseteq>\<^sub>m m'"
  shows "card (dom m) \<le> card (dom m')"
proof (rule card_mono)
  from dom_memo_finite [OF assms(1)] show "finite (dom m')" by (rule finite_subset) simp
  from assms(2) show "dom m \<subseteq> dom m'" by (rule map_le_implies_dom_le)
qed

lemma deepcopy_all_ok:
  assumes one: "\<And>v h m. copying h0 G h m \<Longrightarrow> (\<forall>p. v = Ref p \<longrightarrow> p < length h0) \<Longrightarrow>
      length h0 \<le> f + card (dom m) \<Longrightarrow>
      \<exists>v' h' m'. deepcopy f v (h, m) = Some (v', h', m') \<and> copying h0 G h' m' \<and> m \<subseteq>\<^sub>m m' \<and>
        v' = remap m' v \<and> (\<forall>p. v = Ref p \<longrightarrow> p \<in> dom m')"
  shows "copying h0 G h m \<Longrightarrow> (\<forall>p. Ref p \<in> set vs \<longrightarrow> p < length h0) \<Longrightarrow>
      length h0 \<le> f + card (dom m) \<Longrightarrow>
      \<exists>vs' h' m'. deepcopy_all f vs (h, m) = Some (vs', h', m') \<and> copying h0 G h' m' \<and>
        m \<subseteq>\<^sub>m m' \<and> vs' = map (remap m') vs \<and> (\<forall>p. Ref p \<in> set vs \<longrightarrow> p \<in> dom m')"
proof (induction vs arbitrary: h m)
  case Nil
  then show ?case by simp
next
  case (Cons v vs)
  from Cons.prems(2) have v: "\<forall>p. v = Ref p \<longrightarrow> p < length h0" by simp
  from one [OF Cons.prems(1) v Cons.prems(3)] obtain v' h1 m1 where
    s1: "deepcopy f v (h, m) = Some (v', h1, m1)" "copying h0 G h1 m1" "m \<subseteq>\<^sub>m m1"
      "v' = remap m1 v" "\<forall>p. v = Ref p \<longrightarrow> p \<in> dom m1"
    by blast
  from card_dom_mono [OF s1(2,3)] Cons.prems(3) have fuel: "length h0 \<le> f + card (dom m1)"
    by simp
  from Cons.prems(2) have vs: "\<forall>p. Ref p \<in> set vs \<longrightarrow> p < length h0" by simp
  from Cons.IH [OF s1(2) vs fuel] obtain vs' h2 m2 where
    s2: "deepcopy_all f vs (h1, m1) = Some (vs', h2, m2)" "copying h0 G h2 m2" "m1 \<subseteq>\<^sub>m m2"
      "vs' = map (remap m2) vs" "\<forall>p. Ref p \<in> set vs \<longrightarrow> p \<in> dom m2"
    by blast
  have r: "deepcopy_all f (v # vs) (h, m) = Some (v' # vs', h2, m2)"
    using s1(1) s2(1) by simp
  have le: "m \<subseteq>\<^sub>m m2" using s1(3) s2(3) by (rule map_le_trans)
  have v': "v' = remap m2 v" using remap_mono [OF s2(3) s1(5)] s1(4) by simp
  have d: "\<forall>p. Ref p \<in> set (v # vs) \<longrightarrow> p \<in> dom m2"
  proof (intro allI impI)
    fix p assume "Ref p \<in> set (v # vs)"
    then consider "v = Ref p" | "Ref p \<in> set vs" by auto
    then show "p \<in> dom m2"
    proof cases
      case 1
      with \<open>\<forall>p. v = Ref p \<longrightarrow> p \<in> dom m1\<close> have "p \<in> dom m1" by simp
      with map_le_implies_dom_le [OF s2(3)] show ?thesis by blast
    next
      case 2
      with s2(5) show ?thesis by simp
    qed
  qed
  show ?case using r s2(2) le v' s2(4) d by simp
qed

lemma deepcopy_ok:
  "heap_ok (h0 :: 'a heap) \<Longrightarrow> copying h0 G h m \<Longrightarrow> (\<forall>p. v = Ref p \<longrightarrow> p < length h0) \<Longrightarrow>
   length h0 \<le> f + card (dom m) \<Longrightarrow>
   \<exists>v' h' m'. deepcopy f v (h, m) = Some (v', h', m') \<and> copying h0 G h' m' \<and> m \<subseteq>\<^sub>m m' \<and>
     v' = remap m' v \<and> (\<forall>p. v = Ref p \<longrightarrow> p \<in> dom m')"
proof (induction f arbitrary: G h m v)
  case 0
  show ?case
  proof (cases v)
    case (Atom a)
    with "0.prems" show ?thesis by simp
  next
    case (Ref p)
    show ?thesis
    proof (cases "m p")
      case None
      from dom_memo_finite [OF "0.prems"(2)] None Ref "0.prems"(3)
      have "dom m \<subset> {..<length h0}" by auto
      then have "card (dom m) < length h0" by (metis card_lessThan finite_lessThan psubset_card_mono)
      with "0.prems"(4) show ?thesis by simp
    next
      case (Some q)
      with Ref "0.prems" show ?thesis by auto
    qed
  qed
next
  case (Suc f)
  show ?case
  proof (cases v)
    case (Atom a)
    with Suc.prems show ?thesis by simp
  next
    case (Ref p)
    show ?thesis
    proof (cases "m p")
      case (Some q)
      with Ref Suc.prems show ?thesis by auto
    next
      case None
      from Ref Suc.prems(3) have p: "p < length h0" by simp
      note c = Suc.prems(2)
      from p copyingD(1,2) [OF c] have ph: "p < length h" and x: "h ! p = h0 ! p" by auto
      let ?x = "h0 ! p" and ?q = "length h"
      let ?h1 = "h @ [shell ?x]" and ?m1 = "m(p \<mapsto> length h)"
      have c1: "copying h0 (insert p G) ?h1 ?m1"
        using c p None by (rule copying_alloc) (rule set_shell)
      have ch: "\<forall>r. Ref r \<in> set (children ?x) \<longrightarrow> r < length h0"
        using Suc.prems(1) p by (auto simp: set_children dest: heap_okD)
      have "dom ?m1 = insert p (dom m)" by auto
      moreover have "p \<notin> dom m" using None by auto
      moreover have "finite (dom m)"
        using dom_memo_finite [OF c] by (rule finite_subset) simp
      ultimately have "card (dom ?m1) = Suc (card (dom m))" by simp
      with Suc.prems(4) have fuel: "length h0 \<le> f + card (dom ?m1)" by simp
      have "\<exists>vs' h' m'. deepcopy_all f (children ?x) (?h1, ?m1) = Some (vs', h', m') \<and>
          copying h0 (insert p G) h' m' \<and> ?m1 \<subseteq>\<^sub>m m' \<and> vs' = map (remap m') (children ?x) \<and>
          (\<forall>r. Ref r \<in> set (children ?x) \<longrightarrow> r \<in> dom m')"
        using c1 ch fuel
      proof (rule deepcopy_all_ok [rotated])
        fix v' :: "'a pval" and h' m'
        assume "copying h0 (insert p G) h' m'" "\<forall>p. v' = Ref p \<longrightarrow> p < length h0"
          "length h0 \<le> f + card (dom m')"
        with Suc.prems(1) show "\<exists>v'' h'' m''. deepcopy f v' (h', m') = Some (v'', h'', m'') \<and>
            copying h0 (insert p G) h'' m'' \<and> m' \<subseteq>\<^sub>m m'' \<and> v'' = remap m'' v' \<and>
            (\<forall>p. v' = Ref p \<longrightarrow> p \<in> dom m'')"
          by (rule Suc.IH)
      qed
      then obtain cs h2 m2 where
        2: "deepcopy_all f (children ?x) (?h1, ?m1) = Some (cs, h2, m2)"
          "copying h0 (insert p G) h2 m2" "?m1 \<subseteq>\<^sub>m m2" "cs = map (remap m2) (children ?x)"
          "\<forall>r. Ref r \<in> set (children ?x) \<longrightarrow> r \<in> dom m2"
        by blast
      have mp: "m2 p = Some ?q" using 2(3) by (auto simp: map_le_def)
      have re: "rebuild ?x cs = map_obj (remap m2) ?x" by (simp add: 2(4) rebuild_children)
      have r: "deepcopy (Suc f) v (h, m) = Some (Ref ?q, h2[?q := map_obj (remap m2) ?x], m2)"
        using Ref None ph x 2(1) re by (simp add: Let_def)
      have c3: "copying h0 G (h2[?q := map_obj (remap m2) ?x]) m2"
        using 2(2) mp
      proof (rule copying_fill)
        fix r assume "Ref r \<in> set_obj ?x"
        with 2(5) show "r \<in> dom m2" by (simp add: set_children)
      qed
      have le: "m \<subseteq>\<^sub>m m2"
      proof -
        have "m \<subseteq>\<^sub>m ?m1" using None by (auto simp: map_le_def)
        then show ?thesis using 2(3) by (rule map_le_trans)
      qed
      show ?thesis using r c3 le mp Ref by (auto simp: remap_def)
    qed
  qed
qed

lemma copying_start: "copying h {} h Map.empty"
  by (simp add: copying_def)

lemma view_copy:
  assumes c: "copying h0 {} h m" and ok: "heap_ok h0"
  shows "m p = Some q \<Longrightarrow> view n h (Ref q) = view n h (Ref p)"
proof (induction n arbitrary: p q)
  case 0
  show ?case by simp
next
  case (Suc n)
  from copyingD(1) [OF c] copyingD(3) [OF c Suc.prems]
  have b: "p < length h" "q < length h" "p < length h0"
    by auto
  have x: "h ! p = h0 ! p" using copyingD(2) [OF c b(3)] .
  have y: "h ! q = map_obj (remap m) (h0 ! p)" using copyingD(6) [OF c Suc.prems] by simp
  have "view n h (remap m v) = view n h v" if v: "v \<in> set_obj (h0 ! p)" for v
  proof (cases v)
    case (Atom a)
    then show ?thesis by simp
  next
    case (Ref r)
    with v copyingD(7) [OF c Suc.prems, of r] obtain r' where r': "m r = Some r'" by auto
    with Suc.IH [OF r'] Ref show ?thesis by simp
  qed
  then have "map_obj (view n h \<circ> remap m) (h0 ! p) = map_obj (view n h) (h0 ! p)"
    by (intro obj.map_cong) auto
  with b x y show ?case by (simp add: obj.map_comp)
qed

lemma copying_heap_ok:
  assumes c: "copying h0 G h m" and ok: "heap_ok h0"
  shows "heap_ok h"
proof (rule heap_okI)
  fix p r assume p: "p < length h" and r: "Ref r \<in> set_obj (h ! p)"
  show "r < length h"
  proof (cases "p < length h0")
    case True
    with r copyingD(2) [OF c True] heap_okD [OF ok True, of r] copyingD(1) [OF c]
    show ?thesis by simp
  next
    case False
    with p r copyingD(5) [OF c, of p r] show ?thesis by simp
  qed
qed

lemma copy_example: "BookBase_create_copy example_heap 0 = Some (4, copied_heap)"
  by (simp add: BookBase_create_copy_def example_heap_def copied_heap_def eval_nat_numeral
      Let_def nth_append)

lemma heap_ok_example: "heap_ok example_heap"
  by (simp add: heap_ok_def example_heap_def valid_def)

lemma reach_example: "7 \<in> reach copied_heap (Ref 4)"
proof -
  have 4: "4 \<in> reach copied_heap (Ref 4)"
    by (rule reach.start) (simp_all add: copied_heap_def example_heap_def)
  have 5: "5 \<in> reach copied_heap (Ref 4)"
    by (rule reach.step [OF 4]) (simp_all add: copied_heap_def example_heap_def)
  have 6: "6 \<in> reach copied_heap (Ref 4)"
    by (rule reach.step [OF 5]) (simp_all add: copied_heap_def example_heap_def)
  show ?thesis
    by (rule reach.step [OF 6]) (simp_all add: copied_heap_def example_heap_def)
qed

text \<open>
  Claim C5. In every heap without dangling references, \<open>create_copy\<close> returns a copy
  (the fuel never runs out). Right after the copy, the copy and the original are equal
  by value: they show the same entries with the same attribute values in the same
  order, to any depth; the original shows what it showed before. No object reachable
  from the copy is reachable from the original. So replacing any object reachable from
  the copy (assigning to an attribute of one of its records, changing a list inside
  an attribute value) leaves everything the original shows unchanged, and the other way
  round.
\<close>

theorem copy_isolation:
  "heap_ok h \<Longrightarrow> self < length h \<Longrightarrow>
   \<exists>c h'. BookBase_create_copy h self = Some (c, h') \<and> heap_ok h' \<and>
     (\<forall>n. view n h' (Ref c) = view n h' (Ref self)) \<and>
     (\<forall>n. view n h' (Ref self) = view n h (Ref self)) \<and>
     reach h' (Ref c) \<inter> reach h' (Ref self) = {} \<and>
     (\<forall>a x n. a \<in> reach h' (Ref c) \<longrightarrow>
        view n (h'[a := x]) (Ref self) = view n h' (Ref self)) \<and>
     (\<forall>a x n. a \<in> reach h' (Ref self) \<longrightarrow>
        view n (h'[a := x]) (Ref c) = view n h' (Ref c))"
proof -
  assume ok: "heap_ok h" and self: "self < length h"
  have "length h \<le> length h + card (dom (Map.empty :: nat \<rightharpoonup> nat))" by simp
  with deepcopy_ok [OF ok copying_start, of "Ref self" "length h"] self
  obtain v' h' m' where
    d: "deepcopy (length h) (Ref self) (h, Map.empty) = Some (v', h', m')"
      "copying h {} h' m'" "v' = remap m' (Ref self)" "self \<in> dom m'"
    by auto
  from d(4) obtain c where c: "m' self = Some c" by auto
  with d(3) have v': "v' = Ref c" by simp
  note cb = copyingD(3) [OF d(2) c]
  have r: "BookBase_create_copy h self = Some (c, h')"
    by (simp add: BookBase_create_copy_def d(1) v')
  have ok': "heap_ok h'" using d(2) ok by (rule copying_heap_ok)
  have eq: "view n h' (Ref c) = view n h' (Ref self)" for n
    using d(2) ok c by (rule view_copy)
  have same: "view n h' (Ref self) = view n h (Ref self)" for n
  proof (rule view_cong [OF ok])
    show "valid h (Ref self)" using self by simp
    show "\<forall>a\<in>reach h (Ref self). a < length h' \<and> h' ! a = h ! a"
      using copyingD(1,2) [OF d(2)] by (auto dest!: reach_less)
  qed
  have old: "reach h' (Ref self) \<subseteq> {..<length h}"
  proof (rule reach_below)
    show "\<forall>p<length h. \<forall>r. Ref r \<in> set_obj (h' ! p) \<longrightarrow> r < length h"
      using copyingD(2) [OF d(2)] heap_okD [OF ok] by auto
    show "self < length h" by (rule self)
  qed
  have new: "reach h' (Ref c) \<subseteq> {length h..}"
  proof (rule reach_above)
    show "\<forall>q. length h \<le> q \<and> q < length h' \<longrightarrow> (\<forall>r. Ref r \<in> set_obj (h' ! q) \<longrightarrow> length h \<le> r)"
      using copyingD(5) [OF d(2)] by blast
    show "length h \<le> c" using cb by simp
  qed
  have dis: "reach h' (Ref c) \<inter> reach h' (Ref self) = {}"
  proof (rule ccontr)
    assume "reach h' (Ref c) \<inter> reach h' (Ref self) \<noteq> {}"
    then obtain a where "a \<in> reach h' (Ref c)" "a \<in> reach h' (Ref self)" by auto
    with old new have "length h \<le> a" "a < length h" by auto
    then show False by simp
  qed
  have m1: "view n (h'[a := x]) (Ref self) = view n h' (Ref self)"
    if "a \<in> reach h' (Ref c)" for a x n
  proof (rule view_update [OF ok'])
    show "valid h' (Ref self)" using cb by simp
    show "a \<notin> reach h' (Ref self)" using that dis by auto
  qed
  have m2: "view n (h'[a := x]) (Ref c) = view n h' (Ref c)"
    if "a \<in> reach h' (Ref self)" for a x n
  proof (rule view_update [OF ok'])
    show "valid h' (Ref c)" using cb by simp
    show "a \<notin> reach h' (Ref c)" using that dis by auto
  qed
  show ?thesis using r ok' eq same dis m1 m2 by blast
qed

theorem copy_isolation_witness:
  "heap_ok example_heap \<and> 0 < length example_heap \<and>
   BookBase_create_copy example_heap 0 = Some (4, copied_heap) \<and>
   view 4 copied_heap (Ref 4) = view 4 copied_heap (Ref 0) \<and>
   7 \<in> reach copied_heap (Ref 4) \<and>
   view 4 (copied_heap[7 := PyList [Atom (Num 9999)]]) (Ref 0) = view 4 copied_heap (Ref 0) \<and>
   view 4 (copied_heap[7 := PyList [Atom (Num 9999)]]) (Ref 4) \<noteq> view 4 copied_heap (Ref 4)"
proof -
  have l: "0 < length example_heap" by (simp add: example_heap_def)
  from copy_isolation [OF heap_ok_example l] obtain c h' where
    r: "BookBase_create_copy example_heap 0 = Some (c, h')"
    and eq: "\<And>n. view n h' (Ref c) = view n h' (Ref 0)"
    and mut: "\<And>a x n. a \<in> reach h' (Ref c) \<Longrightarrow> view n (h'[a := x]) (Ref 0) = view n h' (Ref 0)"
    by blast
  from r have c: "c = 4" "h' = copied_heap" by (simp_all add: copy_example)
  have ne: "view 4 (copied_heap[7 := PyList [Atom (Num 9999)]]) (Ref 4) \<noteq> view 4 copied_heap (Ref 4)"
    by (simp add: copied_heap_def example_heap_def eval_nat_numeral nth_append)
  have m: "view 4 (copied_heap[7 := PyList [Atom (Num 9999)]]) (Ref 0) = view 4 copied_heap (Ref 0)"
    using mut [where a = 7 and n = 4 and x = "PyList [Atom (Num 9999)]"] reach_example
    unfolding c by simp
  show ?thesis
    using heap_ok_example l copy_example eq [of 4] m reach_example ne
    unfolding c by blast
qed

end
